theory Spec2Isabelle
  imports Main "HOL-Library.Multiset"
begin

section \<open>Pointers, faults and the iterator searches\<close>

text \<open>
  An \<^verbatim>\<open>OBJ*\<close> is an address; address 0 is \<^verbatim>\<open>nullptr\<close>. The addresses that
  \<^verbatim>\<open>new OBJ{}\<close> hands out during construction are a parameter \<open>addrs\<close> of the
  model, listed in construction order: instance \<open>i\<close> lives at \<open>addrs ! i\<close>.
\<close>

type_synonym ptr = nat

abbreviation nullptr :: ptr where
  "nullptr \<equiv> 0"

text \<open>
  Undefined behaviour is a value: calling a member function through a null pointer,
  and writing through (or erasing at) an end iterator.
\<close>

datatype fault = NullDeref | EndDeref

text \<open>
  An iterator into a container of \<open>n\<close> elements is a position \<open>0 .. n\<close>; position
  \<open>n\<close> is \<^verbatim>\<open>std::end\<close>. \<^verbatim>\<open>std::find_if\<close> returns the first position whose element
  satisfies the predicate, \<^verbatim>\<open>std::find\<close> the first position holding the value.
\<close>

fun std_find_if :: "('a \<Rightarrow> bool) \<Rightarrow> 'a list \<Rightarrow> nat" where
  "std_find_if P [] = 0"
| "std_find_if P (x # xs) = (if P x then 0 else Suc (std_find_if P xs))"

definition std_find :: "'a \<Rightarrow> 'a list \<Rightarrow> nat" where
  "std_find v xs = std_find_if (\<lambda>mem. mem = v) xs"

section \<open>The array-based pool (Pool.h)\<close>

text \<open>
  The two \<^verbatim>\<open>std::array<OBJ*, NUM_OBJS>\<close> members are lists of length \<open>NUM_OBJS\<close>.
  \<open>objs\<close> is the content of the objects behind the addresses, and \<open>resets\<close> records
  every call of \<^verbatim>\<open>OBJ::reset()\<close> the pool makes, in order.
\<close>

record 'obj pool =
  available :: "ptr list"
  inUse :: "ptr list"
  objs :: "ptr \<Rightarrow> 'obj"
  resets :: "ptr list"

text \<open>
  The constructor: every slot of \<^verbatim>\<open>_available\<close> gets a newly allocated,
  default-constructed object, every slot of \<^verbatim>\<open>_inUse\<close> gets \<^verbatim>\<open>nullptr\<close>.
\<close>

definition Pool :: "'obj \<Rightarrow> ptr list \<Rightarrow> 'obj pool" where
  "Pool dflt addrs =
     \<lparr>available = addrs,
      inUse = replicate (length addrs) nullptr,
      objs = (\<lambda>_. dflt),
      resets = []\<rparr>"

text \<open>
  \<^verbatim>\<open>acquire()\<close>: the result is the returned pointer and the new pool. The write
  \<^verbatim>\<open>*iter = mem\<close> into \<^verbatim>\<open>_inUse\<close> is unchecked in the source; at the end iterator it
  is the fault \<open>EndDeref\<close>.
\<close>

definition acquire :: "'obj pool \<Rightarrow> fault + (ptr \<times> 'obj pool)" where
  "acquire s =
     (let iter = std_find_if (\<lambda>mem. mem \<noteq> nullptr) (available s) in
      if iter = length (available s) then Inr (nullptr, s)
      else
        let mem = available s ! iter;
            av = (available s)[iter := nullptr];
            iter2 = std_find nullptr (inUse s)
        in if iter2 = length (inUse s) then Inl EndDeref
           else Inr (mem, s\<lparr>available := av, inUse := (inUse s)[iter2 := mem]\<rparr>))"

text \<open>
  \<^verbatim>\<open>release(obj)\<close>, with \<open>rst\<close> the effect of \<^verbatim>\<open>OBJ::reset()\<close> on an object's
  content. Once \<open>obj\<close> has been found in \<^verbatim>\<open>_inUse\<close> the source calls
  \<^verbatim>\<open>obj->reset()\<close>, which through a null pointer is the fault \<open>NullDeref\<close>; the
  write into \<^verbatim>\<open>_available\<close> is unchecked as in \<open>acquire\<close>.
\<close>

definition release :: "('obj \<Rightarrow> 'obj) \<Rightarrow> ptr \<Rightarrow> 'obj pool \<Rightarrow> fault + 'obj pool" where
  "release rst obj s =
     (let iter = std_find obj (inUse s) in
      if iter = length (inUse s) then Inr s
      else if obj = nullptr then Inl NullDeref
      else
        let ob = (objs s)(obj := rst (objs s obj));
            log = resets s @ [obj];
            mem = inUse s ! iter;
            iu = (inUse s)[iter := nullptr];
            iter2 = std_find nullptr (available s)
        in if iter2 = length (available s) then Inl EndDeref
           else Inr (s\<lparr>available := (available s)[iter2 := mem], inUse := iu,
                       objs := ob, resets := log\<rparr>))"

section \<open>Client scripts and their traces\<close>

datatype op = Acquire | Release ptr

datatype event = Acq ptr | Rel ptr

text \<open>
  Running a script of calls against a pool gives the trace of the calls that returned
  (an acquire with the pointer it returned) and either the final pool or the fault
  that stopped the run.
\<close>

fun run :: "('obj \<Rightarrow> 'obj) \<Rightarrow> op list \<Rightarrow> 'obj pool \<Rightarrow> event list \<times> (fault + 'obj pool)" where
  "run rst [] s = ([], Inr s)"
| "run rst (Acquire # ops) s =
     (case acquire s of
        Inl f \<Rightarrow> ([], Inl f)
      | Inr (r, s') \<Rightarrow> (case run rst ops s' of (evs, res) \<Rightarrow> (Acq r # evs, res)))"
| "run rst (Release p # ops) s =
     (case release rst p s of
        Inl f \<Rightarrow> ([], Inl f)
      | Inr s' \<Rightarrow> (case run rst ops s' of (evs, res) \<Rightarrow> (Rel p # evs, res)))"

section \<open>The multiset-based pool (MultisetPool.h)\<close>

text \<open>
  A \<^verbatim>\<open>std::multiset<OBJ*>\<close> is kept as the list of its elements in iteration order,
  which is ascending address order (\<^verbatim>\<open>nullptr\<close>, address 0, comes first):
  \<^verbatim>\<open>insert\<close> is \<open>insort\<close>, \<^verbatim>\<open>erase(iter)\<close> removes the element at the
  iterator's position, and \<^verbatim>\<open>std::find\<close>/\<^verbatim>\<open>std::find_if\<close> walk the list as above.
\<close>

definition erase_at :: "nat \<Rightarrow> 'a list \<Rightarrow> 'a list" where
  "erase_at i xs = take i xs @ drop (Suc i) xs"

record 'obj ms_pool =
  ms_available :: "ptr list"
  ms_inUse :: "ptr list"
  ms_objs :: "ptr \<Rightarrow> 'obj"
  ms_resets :: "ptr list"

text \<open>The constructor's loop: one \<^verbatim>\<open>insert\<close> into each multiset per object.\<close>

fun ms_fill :: "ptr list \<Rightarrow> 'obj ms_pool \<Rightarrow> 'obj ms_pool" where
  "ms_fill [] t = t"
| "ms_fill (a # addrs) t =
     ms_fill addrs (t\<lparr>ms_available := insort a (ms_available t),
                      ms_inUse := insort nullptr (ms_inUse t)\<rparr>)"

definition ms_Pool :: "'obj \<Rightarrow> ptr list \<Rightarrow> 'obj ms_pool" where
  "ms_Pool dflt addrs =
     ms_fill addrs \<lparr>ms_available = [], ms_inUse = [], ms_objs = (\<lambda>_. dflt), ms_resets = []\<rparr>"

definition ms_acquire :: "'obj ms_pool \<Rightarrow> fault + (ptr \<times> 'obj ms_pool)" where
  "ms_acquire t =
     (let iter = std_find_if (\<lambda>mem. mem \<noteq> nullptr) (ms_available t) in
      if iter = length (ms_available t) then Inr (nullptr, t)
      else
        let mem = ms_available t ! iter;
            av = insort nullptr (erase_at iter (ms_available t));
            iter2 = std_find nullptr (ms_inUse t)
        in if iter2 = length (ms_inUse t) then Inl EndDeref
           else Inr (mem, t\<lparr>ms_available := av,
                             ms_inUse := insort mem (erase_at iter2 (ms_inUse t))\<rparr>))"

definition ms_release :: "('obj \<Rightarrow> 'obj) \<Rightarrow> ptr \<Rightarrow> 'obj ms_pool \<Rightarrow> fault + 'obj ms_pool" where
  "ms_release rst obj t =
     (let iter = std_find obj (ms_inUse t) in
      if iter = length (ms_inUse t) then Inr t
      else if obj = nullptr then Inl NullDeref
      else
        let ob = (ms_objs t)(obj := rst (ms_objs t obj));
            log = ms_resets t @ [obj];
            mem = ms_inUse t ! iter;
            iu = insort nullptr (erase_at iter (ms_inUse t));
            iter2 = std_find nullptr (ms_available t)
        in if iter2 = length (ms_available t) then Inl EndDeref
           else Inr (t\<lparr>ms_available := insort mem (erase_at iter2 (ms_available t)),
                       ms_inUse := iu, ms_objs := ob, ms_resets := log\<rparr>))"

fun ms_run :: "('obj \<Rightarrow> 'obj) \<Rightarrow> op list \<Rightarrow> 'obj ms_pool \<Rightarrow> event list \<times> (fault + 'obj ms_pool)" where
  "ms_run rst [] t = ([], Inr t)"
| "ms_run rst (Acquire # ops) t =
     (case ms_acquire t of
        Inl f \<Rightarrow> ([], Inl f)
      | Inr (r, t') \<Rightarrow> (case ms_run rst ops t' of (evs, res) \<Rightarrow> (Acq r # evs, res)))"
| "ms_run rst (Release p # ops) t =
     (case ms_release rst p t of
        Inl f \<Rightarrow> ([], Inl f)
      | Inr t' \<Rightarrow> (case ms_run rst ops t' of (evs, res) \<Rightarrow> (Rel p # evs, res)))"

section \<open>Reachable states, loans and the invariant\<close>

text \<open>The pool states a client can bring about: construction, then calls that return.\<close>

inductive reachable :: "('obj \<Rightarrow> 'obj) \<Rightarrow> 'obj \<Rightarrow> ptr list \<Rightarrow> 'obj pool \<Rightarrow> bool"
  for rst :: "'obj \<Rightarrow> 'obj" and dflt :: 'obj and addrs :: "ptr list" where
  constructed: "reachable rst dflt addrs (Pool dflt addrs)"
| acquired: "reachable rst dflt addrs s \<Longrightarrow> acquire s = Inr (r, s') \<Longrightarrow> reachable rst dflt addrs s'"
| released: "reachable rst dflt addrs s \<Longrightarrow> release rst obj s = Inr s' \<Longrightarrow> reachable rst dflt addrs s'"

inductive ms_reachable :: "('obj \<Rightarrow> 'obj) \<Rightarrow> 'obj \<Rightarrow> ptr list \<Rightarrow> 'obj ms_pool \<Rightarrow> bool"
  for rst :: "'obj \<Rightarrow> 'obj" and dflt :: 'obj and addrs :: "ptr list" where
  ms_constructed: "ms_reachable rst dflt addrs (ms_Pool dflt addrs)"
| ms_acquired: "ms_reachable rst dflt addrs t \<Longrightarrow> ms_acquire t = Inr (r, t') \<Longrightarrow> ms_reachable rst dflt addrs t'"
| ms_released: "ms_reachable rst dflt addrs t \<Longrightarrow> ms_release rst obj t = Inr t' \<Longrightarrow> ms_reachable rst dflt addrs t'"

text \<open>
  What \<^verbatim>\<open>new\<close> returns during construction: pairwise different addresses, none of
  them null.
\<close>

definition heap_addrs :: "ptr list \<Rightarrow> bool" where
  "heap_addrs addrs \<longleftrightarrow> distinct addrs \<and> nullptr \<notin> set addrs"

text \<open>The non-empty slots of a tracking structure, in slot order.\<close>

definition occupied :: "ptr list \<Rightarrow> ptr list" where
  "occupied xs = filter (\<lambda>mem. mem \<noteq> nullptr) xs"

text \<open>
  The loans a client holds after a trace, oldest last: a successful acquire adds the
  returned reference, a release hands one loan of that reference back.
\<close>

fun loans :: "event list \<Rightarrow> ptr list \<Rightarrow> ptr list" where
  "loans [] held = held"
| "loans (Acq r # evs) held = loans evs (if r = nullptr then held else r # held)"
| "loans (Rel p # evs) held = loans evs (remove1 p held)"

text \<open>
  A trace stays within capacity \<open>n\<close> when every acquire is issued while fewer than
  \<open>n\<close> loans are outstanding, so that granting it makes at most \<open>n\<close>.
\<close>

fun within_capacity :: "nat \<Rightarrow> event list \<Rightarrow> ptr list \<Rightarrow> bool" where
  "within_capacity n [] held = True"
| "within_capacity n (Acq r # evs) held =
     (length held < n \<and> within_capacity n evs (if r = nullptr then held else r # held))"
| "within_capacity n (Rel p # evs) held = within_capacity n evs (remove1 p held)"

definition pool_inv :: "ptr list \<Rightarrow> 'obj pool \<Rightarrow> bool" where
  "pool_inv addrs s \<longleftrightarrow>
     length (available s) = length addrs \<and>
     length (inUse s) = length addrs \<and>
     mset (occupied (available s)) + mset (occupied (inUse s)) = mset addrs"

definition ms_pool_inv :: "ptr list \<Rightarrow> 'obj ms_pool \<Rightarrow> bool" where
  "ms_pool_inv addrs t \<longleftrightarrow>
     length (ms_available t) = length addrs \<and>
     length (ms_inUse t) = length addrs \<and>
     mset (occupied (ms_available t)) + mset (occupied (ms_inUse t)) = mset addrs"

text \<open>The objects a pool currently tracks as lent out.\<close>

definition lent :: "'obj pool \<Rightarrow> ptr set" where
  "lent s = set (occupied (inUse s))"

definition ms_lent :: "'obj ms_pool \<Rightarrow> ptr set" where
  "ms_lent t = set (occupied (ms_inUse t))"

section \<open>The searches\<close>

lemma std_find_if_le: "std_find_if P xs \<le> length xs"
  by (induction xs) auto

lemma std_find_if_end: "std_find_if P xs = length xs \<longleftrightarrow> (\<forall>x \<in> set xs. \<not> P x)"
proof (induction xs)
  case Nil
  show ?case by simp
next
  case (Cons x xs)
  have "std_find_if P xs \<le> length xs" by (rule std_find_if_le)
  with Cons show ?case by auto
qed

lemma std_find_if_lt: "std_find_if P xs < length xs \<longleftrightarrow> (\<exists>x \<in> set xs. P x)"
  using std_find_if_le [of P xs] std_find_if_end [of P xs] by auto

lemma std_find_if_hit: "std_find_if P xs < length xs \<Longrightarrow> P (xs ! std_find_if P xs)"
  by (induction xs) (auto split: if_splits)

lemma std_find_if_first: "j < std_find_if P xs \<Longrightarrow> \<not> P (xs ! j)"
proof (induction xs arbitrary: j)
  case Nil
  then show ?case by simp
next
  case (Cons x xs)
  then show ?case by (cases j) (auto split: if_splits)
qed

lemma std_find_if_filter:
  "std_find_if P xs < length xs \<Longrightarrow> xs ! std_find_if P xs = hd (filter P xs)"
  by (induction xs) (auto split: if_splits)

lemma std_find_end: "std_find v xs = length xs \<longleftrightarrow> v \<notin> set xs"
  by (auto simp: std_find_def std_find_if_end)

lemma std_find_lt: "std_find v xs < length xs \<longleftrightarrow> v \<in> set xs"
  by (auto simp: std_find_def std_find_if_lt)

lemma std_find_hit: "v \<in> set xs \<Longrightarrow> xs ! std_find v xs = v"
  using std_find_if_hit [of "\<lambda>mem. mem = v" xs] by (simp add: std_find_def std_find_if_lt)

section \<open>One call of acquire or release\<close>

lemma occupied_clear:
  assumes "i < length xs"
  shows "mset (occupied (xs[i := nullptr])) = mset (occupied xs) - {#xs ! i#}"
proof -
  have "mset (occupied (xs[i := nullptr]))
          = filter_mset (\<lambda>mem. mem \<noteq> nullptr) (add_mset nullptr (mset xs - {#xs ! i#}))"
    using assms by (simp add: occupied_def mset_update)
  also have "\<dots> = filter_mset (\<lambda>mem. mem \<noteq> nullptr) (mset xs) - {#xs ! i#}"
    by (cases "xs ! i = nullptr") (simp_all add: diff_single_trivial)
  finally show ?thesis by (simp add: occupied_def)
qed

lemma occupied_store:
  assumes "i < length xs" and "xs ! i = nullptr" and "m \<noteq> nullptr"
  shows "mset (occupied (xs[i := m])) = add_mset m (mset (occupied xs))"
proof -
  have "mset (occupied (xs[i := m]))
          = filter_mset (\<lambda>mem. mem \<noteq> nullptr) (add_mset m (mset xs - {#nullptr#}))"
    using assms by (simp add: occupied_def mset_update)
  also have "\<dots> = add_mset m (filter_mset (\<lambda>mem. mem \<noteq> nullptr) (mset xs))"
    using assms by (simp add: diff_single_trivial)
  finally show ?thesis by (simp add: occupied_def)
qed

lemma occupied_length:
  "length (occupied xs) + count_list xs nullptr = length xs"
  by (induction xs) (auto simp: occupied_def)

lemma empty_slot_exists:
  assumes "length (occupied xs) < length xs"
  shows "nullptr \<in> set xs"
proof (rule ccontr)
  assume "nullptr \<notin> set xs"
  then have "\<forall>x \<in> set xs. x \<noteq> nullptr" by metis
  then have "occupied xs = xs" unfolding occupied_def by (simp only: filter_id_conv)
  with assms show False by simp
qed

lemma pool_inv_sizes:
  assumes "pool_inv addrs s"
  shows "length (occupied (available s)) + length (occupied (inUse s)) = length addrs"
proof -
  have "size (mset (occupied (available s)) + mset (occupied (inUse s))) = size (mset addrs)"
    using assms by (simp add: pool_inv_def)
  then show ?thesis by simp
qed

lemma pool_inv_Pool:
  assumes "nullptr \<notin> set addrs"
  shows "pool_inv addrs (Pool dflt addrs)"
proof -
  have "occupied addrs = addrs"
    using assms unfolding occupied_def by (simp only: filter_id_conv) metis
  moreover have "occupied (replicate (length addrs) nullptr) = []"
    by (simp add: occupied_def)
  ultimately show ?thesis by (simp add: pool_inv_def Pool_def)
qed

lemma acquire_exhausted:
  assumes "occupied (available s) = []"
  shows "acquire s = Inr (nullptr, s)"
proof -
  have "\<forall>x \<in> set (available s). \<not> x \<noteq> nullptr"
    using assms by (simp add: occupied_def filter_empty_conv)
  then have "std_find_if (\<lambda>mem. mem \<noteq> nullptr) (available s) = length (available s)"
    by (simp only: std_find_if_end)
  then show ?thesis by (simp add: acquire_def)
qed

lemma acquire_grant:
  assumes inv: "pool_inv addrs s" and some: "occupied (available s) \<noteq> []"
  shows "\<exists>s'. acquire s = Inr (hd (occupied (available s)), s')
           \<and> pool_inv addrs s'
           \<and> mset (occupied (available s')) = mset (occupied (available s)) - {#hd (occupied (available s))#}
           \<and> mset (occupied (inUse s')) = add_mset (hd (occupied (available s))) (mset (occupied (inUse s)))
           \<and> objs s' = objs s \<and> resets s' = resets s"
proof -
  define i where "i = std_find_if (\<lambda>mem. mem \<noteq> nullptr) (available s)"
  define r where "r = hd (occupied (available s))"
  define j where "j = std_find nullptr (inUse s)"
  have "\<exists>x \<in> set (available s). x \<noteq> nullptr"
    using some by (simp add: occupied_def filter_empty_conv)
  then have i_lt: "i < length (available s)"
    unfolding i_def by (simp only: std_find_if_lt)
  have r_at: "available s ! i = r"
    using std_find_if_filter [of "\<lambda>mem. mem \<noteq> nullptr" "available s"] i_lt
    by (simp add: i_def r_def occupied_def)
  have r_nz: "r \<noteq> nullptr"
    using std_find_if_hit [of "\<lambda>mem. mem \<noteq> nullptr" "available s"] i_lt r_at
    by (simp add: i_def)
  have r_in: "r \<in># mset (occupied (available s))"
    using some by (simp add: r_def)
  have "1 \<le> length (occupied (available s))"
    using some by (cases "occupied (available s)") simp_all
  moreover have "length (inUse s) = length addrs"
    using inv by (simp add: pool_inv_def)
  ultimately have "length (occupied (inUse s)) < length (inUse s)"
    using pool_inv_sizes [OF inv] by linarith
  then have "nullptr \<in> set (inUse s)" by (rule empty_slot_exists)
  then have j_lt: "j < length (inUse s)" and j_at: "inUse s ! j = nullptr"
    by (simp_all add: j_def std_find_lt std_find_hit)
  define s' where "s' = s\<lparr>available := (available s)[i := nullptr], inUse := (inUse s)[j := r]\<rparr>"
  have acq: "acquire s = Inr (r, s')"
    unfolding acquire_def Let_def i_def [symmetric] j_def [symmetric] s'_def
    using i_lt j_lt r_at by simp
  have av: "mset (occupied (available s')) = mset (occupied (available s)) - {#r#}"
    using occupied_clear [OF i_lt] r_at by (simp add: s'_def)
  have iu: "mset (occupied (inUse s')) = add_mset r (mset (occupied (inUse s)))"
    using occupied_store [OF j_lt j_at r_nz] by (simp add: s'_def)
  have "mset (occupied (available s')) + mset (occupied (inUse s'))
          = add_mset r (mset (occupied (available s)) - {#r#}) + mset (occupied (inUse s))"
    by (simp add: av iu)
  also have "\<dots> = mset (occupied (available s)) + mset (occupied (inUse s))"
    by (simp only: insert_DiffM [OF r_in])
  finally have "mset (occupied (available s')) + mset (occupied (inUse s')) = mset addrs"
    using inv by (simp only: pool_inv_def)
  then have "pool_inv addrs s'"
    using inv by (simp add: pool_inv_def s'_def)
  then show ?thesis
    using acq av iu by (auto simp: r_def s'_def)
qed

lemma release_untracked:
  assumes "obj \<notin> set (inUse s)"
  shows "release rst obj s = Inr s"
  using assms by (simp add: release_def std_find_end)

lemma release_null:
  assumes "nullptr \<in> set (inUse s)"
  shows "release rst nullptr s = Inl NullDeref"
  using assms std_find_lt [of nullptr "inUse s"] by (simp add: release_def)

lemma release_tracked:
  assumes inv: "pool_inv addrs s" and nz: "obj \<noteq> nullptr" and lent: "obj \<in> set (inUse s)"
  shows "\<exists>s'. release rst obj s = Inr s'
           \<and> pool_inv addrs s'
           \<and> mset (occupied (inUse s')) = mset (occupied (inUse s)) - {#obj#}
           \<and> mset (occupied (available s')) = add_mset obj (mset (occupied (available s)))
           \<and> objs s' = (objs s)(obj := rst (objs s obj))
           \<and> resets s' = resets s @ [obj]"
proof -
  define i where "i = std_find obj (inUse s)"
  define j where "j = std_find nullptr (available s)"
  have i_lt: "i < length (inUse s)" and i_at: "inUse s ! i = obj"
    using lent by (simp_all add: i_def std_find_lt std_find_hit)
  have obj_in: "obj \<in># mset (occupied (inUse s))"
    using lent nz by (simp add: occupied_def)
  then have "1 \<le> length (occupied (inUse s))"
    by (cases "occupied (inUse s)") simp_all
  moreover have "length (available s) = length addrs"
    using inv by (simp add: pool_inv_def)
  ultimately have "length (occupied (available s)) < length (available s)"
    using pool_inv_sizes [OF inv] by linarith
  then have "nullptr \<in> set (available s)" by (rule empty_slot_exists)
  then have j_lt: "j < length (available s)" and j_at: "available s ! j = nullptr"
    by (simp_all add: j_def std_find_lt std_find_hit)
  define s' where "s' = s\<lparr>available := (available s)[j := obj], inUse := (inUse s)[i := nullptr],
                          objs := (objs s)(obj := rst (objs s obj)), resets := resets s @ [obj]\<rparr>"
  have rel: "release rst obj s = Inr s'"
    unfolding release_def Let_def i_def [symmetric] j_def [symmetric] s'_def
    using i_lt j_lt i_at nz by simp
  have iu: "mset (occupied (inUse s')) = mset (occupied (inUse s)) - {#obj#}"
    using occupied_clear [OF i_lt] i_at by (simp add: s'_def)
  have av: "mset (occupied (available s')) = add_mset obj (mset (occupied (available s)))"
    using occupied_store [OF j_lt j_at nz] by (simp add: s'_def)
  have "mset (occupied (available s')) + mset (occupied (inUse s'))
          = mset (occupied (available s)) + add_mset obj (mset (occupied (inUse s)) - {#obj#})"
    by (simp add: av iu)
  also have "\<dots> = mset (occupied (available s)) + mset (occupied (inUse s))"
    by (simp only: insert_DiffM [OF obj_in])
  finally have "mset (occupied (available s')) + mset (occupied (inUse s')) = mset addrs"
    using inv by (simp only: pool_inv_def)
  then have "pool_inv addrs s'"
    using inv by (simp add: pool_inv_def s'_def)
  then show ?thesis
    using rel av iu by (auto simp: s'_def)
qed

section \<open>Filling the pool up\<close>

lemma std_find_if_append:
  assumes "\<forall>x \<in> set xs. \<not> P x"
  shows "std_find_if P (xs @ ys) = length xs + std_find_if P ys"
  using assms by (induction xs) auto

lemma acquire_next:
  assumes av: "available s = replicate k nullptr @ a # rest"
    and a: "a \<noteq> nullptr"
    and iu: "inUse s = given @ nullptr # zs"
    and given: "nullptr \<notin> set given"
  shows "acquire s = Inr (a, s\<lparr>available := replicate (Suc k) nullptr @ rest,
                               inUse := given @ a # zs\<rparr>)"
proof -
  have i: "std_find_if (\<lambda>mem. mem \<noteq> nullptr) (available s) = k"
    using a by (simp add: av std_find_if_append)
  have "\<forall>x \<in> set given. \<not> x = nullptr" using given by metis
  then have j: "std_find nullptr (inUse s) = length given"
    unfolding std_find_def iu by (simp add: std_find_if_append)
  have upd: "(replicate k nullptr @ a # rest)[k := nullptr] = replicate (Suc k) nullptr @ rest"
    using list_update_length [of "replicate k nullptr" a rest nullptr]
    by (simp add: replicate_app_Cons_same)
  have at: "(replicate k nullptr @ a # rest) ! k = a"
    using nth_append_length [of "replicate k nullptr" a rest] by simp
  show ?thesis
    unfolding acquire_def Let_def i j
    by (simp add: av iu upd at)
qed

lemma run_acquire_all:
  assumes "available s = replicate k nullptr @ rest"
    and "nullptr \<notin> set rest"
    and "inUse s = given @ replicate (length rest) nullptr"
    and "nullptr \<notin> set given"
  shows "run rst (replicate (length rest) Acquire @ ops) s =
           (case run rst ops (s\<lparr>available := replicate (k + length rest) nullptr,
                                 inUse := given @ rest\<rparr>)
            of (evs, res) \<Rightarrow> (map Acq rest @ evs, res))"
  using assms
proof (induction rest arbitrary: k given s)
  case Nil
  then have "s\<lparr>available := replicate k nullptr, inUse := given\<rparr> = s" by simp
  then show ?case by simp
next
  case (Cons a rest)
  let ?s' = "s\<lparr>available := replicate (Suc k) nullptr @ rest,
                inUse := (given @ [a]) @ replicate (length rest) nullptr\<rparr>"
  have acq: "acquire s = Inr (a, ?s')"
    using acquire_next [of s k a rest given "replicate (length rest) nullptr"] Cons.prems
    by simp
  have "run rst (replicate (length rest) Acquire @ ops) ?s' =
           (case run rst ops (?s'\<lparr>available := replicate (Suc k + length rest) nullptr,
                                 inUse := (given @ [a]) @ rest\<rparr>)
            of (evs, res) \<Rightarrow> (map Acq rest @ evs, res))"
    using Cons.prems by (intro Cons.IH) auto
  then show ?case
    by (simp add: acq split: prod.splits)
qed

text \<open>
  Claim C1. On a freshly constructed pool of capacity \<open>N\<close> (any \<open>N\<close>, the objects at
  non-null addresses), \<open>N + 1\<close> calls of \<open>acquire\<close> in a row all return: the first
  \<open>N\<close> return the \<open>N\<close> objects in construction order, none of them null, and call
  \<open>N + 1\<close> returns \<^verbatim>\<open>nullptr\<close>; no fault occurs, and the pool ends with every
  object in \<^verbatim>\<open>_inUse\<close>.
\<close>

theorem exhausted_after_capacity_acquires:
  assumes "nullptr \<notin> set addrs"
  shows "run rst (replicate (Suc (length addrs)) Acquire) (Pool dflt addrs) =
           (map Acq addrs @ [Acq nullptr],
            Inr ((Pool dflt addrs)\<lparr>available := replicate (length addrs) nullptr,
                                    inUse := addrs\<rparr>))"
proof -
  let ?full = "(Pool dflt addrs)\<lparr>available := replicate (length addrs) nullptr, inUse := addrs\<rparr>"
  have "occupied (available ?full) = []" by (simp add: occupied_def)
  then have last: "acquire ?full = Inr (nullptr, ?full)" by (rule acquire_exhausted)
  have "run rst (replicate (length addrs) Acquire @ [Acquire]) (Pool dflt addrs) =
          (case run rst [Acquire] ((Pool dflt addrs)\<lparr>available := replicate (0 + length addrs) nullptr,
                                 inUse := [] @ addrs\<rparr>)
            of (evs, res) \<Rightarrow> (map Acq addrs @ evs, res))"
    using assms by (intro run_acquire_all) (simp_all add: Pool_def)
  moreover have "replicate (length addrs) Acquire @ [Acquire] = replicate (Suc (length addrs)) Acquire"
    by (simp add: replicate_append_same)
  ultimately show ?thesis
    using last by simp
qed

theorem exhausted_after_capacity_acquires_witness:
  "run (\<lambda>_. 0::nat) [Acquire, Acquire, Acquire, Acquire] (Pool 1 [10, 20, 30]) =
     ([Acq 10, Acq 20, Acq 30, Acq nullptr],
      Inr \<lparr>available = [nullptr, nullptr, nullptr], inUse = [10, 20, 30],
           objs = (\<lambda>_. 1), resets = []\<rparr>)"
  using exhausted_after_capacity_acquires [of "[10, 20, 30]" "\<lambda>_. 0::nat" 1]
  by (simp add: Pool_def numeral_3_eq_3)

section \<open>The capacity-two scenario\<close>

text \<open>
  Claim C8. A pool of capacity 2 whose objects live at the distinct non-null addresses
  \<open>p\<close> and \<open>q\<close>: acquire returns \<open>a1 = p\<close>, acquire returns \<open>a2 = q\<close>, acquire
  returns \<open>a3 = nullptr\<close>, then \<open>release(a1)\<close>, acquire returns \<open>a4 = p = a1\<close>,
  \<open>release(a2)\<close>, acquire returns \<open>a5 = q = a2\<close>; every call returns normally.
\<close>

theorem capacity_two_scenario:
  assumes "p \<noteq> nullptr" and "q \<noteq> nullptr" and "p \<noteq> q"
  shows "\<exists>s. run rst [Acquire, Acquire, Acquire, Release p, Acquire, Release q, Acquire]
               (Pool dflt [p, q])
             = ([Acq p, Acq q, Acq nullptr, Rel p, Acq p, Rel q, Acq q], Inr s)"
  using assms by (simp add: acquire_def release_def Pool_def std_find_def Let_def)

theorem capacity_two_scenario_witness:
  "\<exists>s. run (\<lambda>_. 0::nat) [Acquire, Acquire, Acquire, Release 5, Acquire, Release 9, Acquire]
         (Pool 1 [5, 9])
       = ([Acq 5, Acq 9, Acq nullptr, Rel 5, Acq 5, Rel 9, Acq 9], Inr s)"
  using capacity_two_scenario [of 5 9 "\<lambda>_. 0::nat" 1] by simp

text \<open>
  The test case of the repository (\<^verbatim>\<open>StackVsHeapAlloc.cpp\<close>) runs the calls in another
  order; its five \<^verbatim>\<open>REQUIRE\<close>s hold as well.
\<close>

lemma repository_test_case:
  assumes "p \<noteq> nullptr" and "q \<noteq> nullptr" and "p \<noteq> q"
  shows "\<exists>s. run rst [Acquire, Acquire, Release p, Acquire, Acquire, Release q, Acquire]
               (Pool dflt [p, q])
             = ([Acq p, Acq q, Rel p, Acq p, Acq nullptr, Rel q, Acq q], Inr s)"
  using assms by (simp add: acquire_def release_def Pool_def std_find_def Let_def)

section \<open>The invariant in every reachable state\<close>

lemma acquire_inv:
  assumes "pool_inv addrs s" and "acquire s = Inr (r, s')"
  shows "pool_inv addrs s'"
proof (cases "occupied (available s) = []")
  case True
  then show ?thesis using assms acquire_exhausted [of s] by simp
next
  case False
  from acquire_grant [OF assms(1) False] assms(2) show ?thesis by auto
qed

lemma release_inv:
  assumes "pool_inv addrs s" and "release rst obj s = Inr s'"
  shows "pool_inv addrs s'"
proof (cases "obj \<in> set (inUse s)")
  case False
  then show ?thesis using assms release_untracked [of obj s rst] by simp
next
  case True
  show ?thesis
  proof (cases "obj = nullptr")
    case True
    with \<open>obj \<in> set (inUse s)\<close> assms(2) release_null [of s rst] show ?thesis by simp
  next
    case False
    from release_tracked [OF assms(1) False True, of rst] assms(2) show ?thesis by auto
  qed
qed

lemma reachable_inv:
  assumes "nullptr \<notin> set addrs" and "reachable rst dflt addrs s"
  shows "pool_inv addrs s"
  using assms(2)
proof (induction rule: reachable.induct)
  case constructed
  show ?case using assms(1) by (rule pool_inv_Pool)
next
  case (acquired s r s')
  then show ?case by (blast intro: acquire_inv)
next
  case (released s obj s')
  then show ?case by (blast intro: release_inv)
qed

lemma run_reachable:
  assumes "reachable rst dflt addrs s" and "run rst ops s = (evs, Inr s')"
  shows "reachable rst dflt addrs s'"
  using assms
proof (induction ops arbitrary: s evs)
  case Nil
  then show ?case by simp
next
  case (Cons c ops)
  show ?case
  proof (cases c)
    case Acquire
    with Cons.prems(2) obtain r s1 evs1 where
      "acquire s = Inr (r, s1)" and "run rst ops s1 = (evs1, Inr s')"
      by (auto split: sum.splits prod.splits)
    with Cons.IH Cons.prems(1) show ?thesis by (blast intro: reachable.acquired)
  next
    case (Release p)
    with Cons.prems(2) obtain s1 evs1 where
      "release rst p s = Inr s1" and "run rst ops s1 = (evs1, Inr s')"
      by (auto split: sum.splits prod.splits)
    with Cons.IH Cons.prems(1) show ?thesis by (blast intro: reachable.released)
  qed
qed

lemma pool_inv_distinct:
  assumes "heap_addrs addrs" and "pool_inv addrs s"
  shows "distinct (occupied (available s) @ occupied (inUse s))"
proof -
  have eq: "mset (occupied (available s) @ occupied (inUse s)) = mset addrs"
    using assms(2) by (simp add: pool_inv_def)
  have "distinct addrs" using assms(1) by (simp add: heap_addrs_def)
  with mset_eq_imp_distinct_iff [OF eq] show ?thesis by blast
qed

lemma count_list_occupied:
  assumes "a \<noteq> nullptr"
  shows "count_list (occupied xs) a = count_list xs a"
  using assms by (induction xs) (auto simp: occupied_def)

text \<open>
  Claim C2. In every state reachable from construction, both tracking structures have
  \<open>N\<close> slots, each of the \<open>N\<close> objects sits in exactly one slot of the two structures
  taken together (so never in both and never in neither), the non-empty slots hold
  nothing but these objects, and the number of non-empty slots of \<^verbatim>\<open>_available\<close> plus
  that of \<^verbatim>\<open>_inUse\<close> is \<open>N\<close>.
\<close>

theorem each_object_in_exactly_one_slot:
  assumes "heap_addrs addrs" and "reachable rst dflt addrs s"
  shows "length (available s) = length addrs \<and> length (inUse s) = length addrs
       \<and> (\<forall>a \<in> set addrs. count_list (available s) a + count_list (inUse s) a = 1)
       \<and> set (occupied (available s)) \<union> set (occupied (inUse s)) = set addrs
       \<and> length (occupied (available s)) + length (occupied (inUse s)) = length addrs"
proof -
  have nz: "nullptr \<notin> set addrs" and dist: "distinct addrs"
    using assms(1) by (simp_all add: heap_addrs_def)
  have inv: "pool_inv addrs s" using nz assms(2) by (rule reachable_inv)
  have eq: "mset (occupied (available s) @ occupied (inUse s)) = mset addrs"
    using inv by (simp add: pool_inv_def)
  have once: "count_list (available s) a + count_list (inUse s) a = 1" if "a \<in> set addrs" for a
  proof -
    have "a \<noteq> nullptr" using that nz by metis
    then have "count_list (available s) a + count_list (inUse s) a
                 = count_list (occupied (available s) @ occupied (inUse s)) a"
      by (simp add: count_list_occupied)
    also have "\<dots> = count_list addrs a"
      using eq by (rule mset_eq_length_filter)
    also have "\<dots> = 1"
      using dist that by (metis count_mset distinct_count_atmost_1)
    finally show ?thesis .
  qed
  have "set (occupied (available s) @ occupied (inUse s)) = set addrs"
    using eq by (rule mset_eq_setD)
  then have sets: "set (occupied (available s)) \<union> set (occupied (inUse s)) = set addrs"
    by simp
  show ?thesis
    using inv once sets pool_inv_sizes [OF inv] by (simp add: pool_inv_def)
qed

theorem each_object_in_exactly_one_slot_witness:
  "count_list (available \<lparr>available = [nullptr, 9], inUse = [5, nullptr],
                           objs = (\<lambda>_. 1::nat), resets = []\<rparr>) 5
   + count_list (inUse \<lparr>available = [nullptr, 9], inUse = [5, nullptr],
                         objs = (\<lambda>_. 1::nat), resets = []\<rparr>) 5 = 1
   \<and> reachable id 1 [5, 9] \<lparr>available = [nullptr, 9], inUse = [5, nullptr],
                                objs = (\<lambda>_. 1::nat), resets = []\<rparr>"
proof -
  let ?s = "\<lparr>available = [nullptr, 9], inUse = [5, nullptr], objs = (\<lambda>_. 1::nat), resets = []\<rparr>"
  have "acquire (Pool (1::nat) [5, 9]) = Inr (5, ?s)"
    by (simp add: acquire_def Pool_def std_find_def)
  then have r: "reachable id 1 [5, 9] ?s"
    by (rule reachable.acquired [OF reachable.constructed])
  have h: "heap_addrs [5, 9]" by (simp add: heap_addrs_def)
  from each_object_in_exactly_one_slot [OF h r] r show ?thesis by simp
qed

section \<open>Releasing what is not lent\<close>

text \<open>
  A non-null reference that is in no slot of \<^verbatim>\<open>_inUse\<close> (a foreign address, or an object
  already released) is ignored: the pool is returned as it was, \<open>resets\<close> included.
  This holds in every state, reachable or not.
\<close>

lemma release_not_lent_ignored:
  assumes "obj \<noteq> nullptr" and "obj \<notin> set (inUse s)"
  shows "release rst obj s = Inr s"
  using assms(2) by (rule release_untracked)

text \<open>A release that was accepted makes the next release of the same reference a no-op.\<close>

lemma double_release_ignored:
  assumes "heap_addrs addrs" and "reachable rst dflt addrs s"
    and "obj \<noteq> nullptr" and "release rst obj s = Inr s1"
  shows "release rst obj s1 = Inr s1"
proof -
  have nz: "nullptr \<notin> set addrs" using assms(1) by (simp add: heap_addrs_def)
  have inv: "pool_inv addrs s" using nz assms(2) by (rule reachable_inv)
  show ?thesis
  proof (cases "obj \<in> set (inUse s)")
    case False
    then have "s1 = s" using assms(4) release_untracked [of obj s rst] by simp
    with False show ?thesis by (simp add: release_untracked)
  next
    case True
    from release_tracked [OF inv assms(3) True, of rst] assms(4)
    have inv1: "pool_inv addrs s1"
      and av: "mset (occupied (available s1)) = add_mset obj (mset (occupied (available s)))"
      by auto
    have "obj \<in> set (occupied (available s1))"
      using av by (metis set_mset_mset union_single_eq_member)
    moreover have "distinct (occupied (available s1) @ occupied (inUse s1))"
      using assms(1) inv1 by (rule pool_inv_distinct)
    ultimately have "obj \<notin> set (occupied (inUse s1))" by auto
    then have "obj \<notin> set (inUse s1)" using assms(3) by (simp add: occupied_def)
    then show ?thesis by (rule release_untracked)
  qed
qed

text \<open>
  Claim C3, at the null reference. \<^verbatim>\<open>nullptr\<close> is also the marker of an empty slot, so
  on a freshly constructed pool of any capacity \<open>N \<ge> 1\<close> the search of \<^verbatim>\<open>_inUse\<close> for
  the argument \<^verbatim>\<open>nullptr\<close> succeeds at slot 0, and \<open>release\<close> goes on to call
  \<^verbatim>\<open>reset()\<close> through the null pointer instead of returning.
\<close>

theorem release_nullptr_on_fresh_pool:
  "release rst nullptr (Pool dflt (a # addrs)) = Inl NullDeref"
  by (simp add: release_def Pool_def std_find_def)

text \<open>
  Claim C10, at the same call. On the fresh pool of capacity 1 the argument
  \<^verbatim>\<open>nullptr\<close> is found in \<^verbatim>\<open>_inUse\<close> (the search does not return the end position),
  while the search of \<^verbatim>\<open>_available\<close> for an empty slot returns the end position: there
  is no empty slot for the unchecked write of \<open>release\<close>.
\<close>

theorem release_nullptr_finds_no_empty_slot:
  "std_find nullptr (inUse (Pool () [1])) \<noteq> length (inUse (Pool () [1]))
   \<and> std_find nullptr (available (Pool () [1])) = length (available (Pool () [1]))"
  by (simp add: Pool_def std_find_def)

text \<open>
  For calls that do not pass \<^verbatim>\<open>nullptr\<close> the unchecked searches do succeed in every
  reachable state: neither operation faults.
\<close>

lemma acquire_returns:
  assumes "heap_addrs addrs" and "reachable rst dflt addrs s"
  shows "\<exists>r s'. acquire s = Inr (r, s')"
proof -
  have "nullptr \<notin> set addrs" using assms(1) by (simp add: heap_addrs_def)
  then have inv: "pool_inv addrs s" using assms(2) by (rule reachable_inv)
  show ?thesis
  proof (cases "occupied (available s) = []")
    case True
    then show ?thesis by (blast dest: acquire_exhausted)
  next
    case False
    from acquire_grant [OF inv False] show ?thesis by blast
  qed
qed

lemma acquire_finds_empty_slot:
  assumes "heap_addrs addrs" and "reachable rst dflt addrs s"
    and "std_find_if (\<lambda>mem. mem \<noteq> nullptr) (available s) \<noteq> length (available s)"
  shows "std_find nullptr (inUse s) < length (inUse s)"
proof -
  from acquire_returns [OF assms(1,2)] obtain r s' where "acquire s = Inr (r, s')" by blast
  then have "std_find nullptr (inUse s) \<noteq> length (inUse s)"
    using assms(3) by (auto simp: acquire_def Let_def split: if_splits)
  moreover have "std_find nullptr (inUse s) \<le> length (inUse s)"
    unfolding std_find_def by (rule std_find_if_le)
  ultimately show ?thesis by simp
qed

lemma release_returns:
  assumes "heap_addrs addrs" and "reachable rst dflt addrs s" and "obj \<noteq> nullptr"
  shows "\<exists>s'. release rst obj s = Inr s'"
proof -
  have "nullptr \<notin> set addrs" using assms(1) by (simp add: heap_addrs_def)
  then have inv: "pool_inv addrs s" using assms(2) by (rule reachable_inv)
  show ?thesis
  proof (cases "obj \<in> set (inUse s)")
    case False
    then show ?thesis by (blast dest: release_untracked)
  next
    case True
    from release_tracked [OF inv assms(3) True] show ?thesis by blast
  qed
qed

lemma release_finds_empty_slot:
  assumes "heap_addrs addrs" and "reachable rst dflt addrs s" and "obj \<noteq> nullptr"
    and "std_find obj (inUse s) \<noteq> length (inUse s)"
  shows "std_find nullptr (available s) < length (available s)"
proof -
  from release_returns [OF assms(1,2,3)] obtain s' where "release rst obj s = Inr s'" by blast
  then have "std_find nullptr (available s) \<noteq> length (available s)"
    using assms(3,4) by (auto simp: release_def Let_def split: if_splits)
  moreover have "std_find nullptr (available s) \<le> length (available s)"
    unfolding std_find_def by (rule std_find_if_le)
  ultimately show ?thesis by simp
qed

section \<open>Release followed by acquire\<close>

lemma release_tracked_available:
  assumes "obj \<noteq> nullptr" and "obj \<in> set (inUse s)" and "release rst obj s = Inr s'"
  shows "available s' = (available s)[std_find nullptr (available s) := obj]"
proof -
  have "std_find obj (inUse s) \<noteq> length (inUse s)"
    using assms(2) by (simp add: std_find_end)
  then show ?thesis
    using assms(1,3) std_find_hit [OF assms(2)]
    by (auto simp: release_def Let_def split: if_splits)
qed

lemma hd_occupied_after_store:
  assumes "xs \<noteq> []" and "obj \<noteq> nullptr"
  shows "hd (occupied (xs[std_find nullptr xs := obj])) = (if hd xs = nullptr then obj else hd xs)"
proof (cases xs)
  case Nil
  with assms(1) show ?thesis by simp
next
  case (Cons x rest)
  then show ?thesis using assms(2) by (simp add: occupied_def std_find_def)
qed

text \<open>
  Claim C5 does not hold as stated. Capacity 2, objects at 5 and 9: both are acquired,
  9 is released, and 5 is then the one outstanding loan. Releasing 5 and acquiring at
  once returns 9: \<open>release\<close> stores 5 in the first empty slot of \<^verbatim>\<open>_available\<close>, which
  is slot 1 behind the 9 in slot 0, and \<open>acquire\<close> takes the first non-empty slot.
\<close>

theorem release_then_acquire_counterexample:
  "loans (fst (run id [Acquire, Acquire, Release 9] (Pool (0::nat) [5, 9]))) [] = [5]
   \<and> fst (run id [Acquire, Acquire, Release 9, Release 5, Acquire] (Pool (0::nat) [5, 9]))
       = [Acq 5, Acq 9, Rel 9, Rel 5, Acq 9]"
  by (simp add: acquire_def release_def Pool_def std_find_def Let_def)

text \<open>
  Claim C5, amended. In a reachable state with \<open>r\<close> lent out, \<open>release(r)\<close> followed at
  once by \<open>acquire()\<close> returns normally, and the acquire returns \<open>r\<close> exactly when slot 0
  of \<^verbatim>\<open>_available\<close> was empty at the release (as it is whenever the pool is exhausted);
  otherwise it returns the object that was in slot 0, which is not \<open>r\<close>.
\<close>

theorem release_then_acquire:
  assumes "heap_addrs addrs" and "reachable rst dflt addrs s"
    and "r \<noteq> nullptr" and "r \<in> set (inUse s)"
  shows "\<exists>s1 r' s2. release rst r s = Inr s1 \<and> acquire s1 = Inr (r', s2)
           \<and> r' = (if hd (available s) = nullptr then r else hd (available s))
           \<and> (r' = r \<longleftrightarrow> hd (available s) = nullptr)
           \<and> available s \<noteq> []"
proof -
  have nz: "nullptr \<notin> set addrs" using assms(1) by (simp add: heap_addrs_def)
  have inv: "pool_inv addrs s" using nz assms(2) by (rule reachable_inv)
  from release_tracked [OF inv assms(3,4), of rst] obtain s1 where
    rel: "release rst r s = Inr s1" and inv1: "pool_inv addrs s1"
    and av1: "mset (occupied (available s1)) = add_mset r (mset (occupied (available s)))"
    by blast
  have "inUse s \<noteq> []" using assms(4) by auto
  then have ne: "available s \<noteq> []" using inv by (auto simp: pool_inv_def)
  have some: "occupied (available s1) \<noteq> []" using av1 by auto
  from acquire_grant [OF inv1 some] obtain s2 where
    acq: "acquire s1 = Inr (hd (occupied (available s1)), s2)" by blast
  have "available s1 = (available s)[std_find nullptr (available s) := r]"
    using assms(3,4) rel by (rule release_tracked_available)
  then have r': "hd (occupied (available s1)) = (if hd (available s) = nullptr then r else hd (available s))"
    using hd_occupied_after_store [OF ne assms(3)] by simp
  have "hd (available s) \<noteq> r" if "hd (available s) \<noteq> nullptr"
  proof -
    have "hd (available s) \<in> set (occupied (available s))"
      using that ne by (simp add: occupied_def)
    moreover have "r \<in> set (occupied (inUse s))"
      using assms(3,4) by (simp add: occupied_def)
    moreover have "distinct (occupied (available s) @ occupied (inUse s))"
      using assms(1) inv by (rule pool_inv_distinct)
    ultimately show ?thesis by auto
  qed
  then have iff: "hd (occupied (available s1)) = r \<longleftrightarrow> hd (available s) = nullptr"
    using r' by auto
  show ?thesis
    by (rule exI [of _ s1], rule exI [of _ "hd (occupied (available s1))"], rule exI [of _ s2])
      (simp only: rel acq r' [symmetric] iff ne, simp)
qed

theorem release_then_acquire_witness:
  "\<exists>s1 r' s2.
     release id 5 \<lparr>available = [nullptr, nullptr], inUse = [5, 9], objs = (\<lambda>_. 0::nat), resets = []\<rparr>
       = Inr s1
     \<and> acquire s1 = Inr (r', s2) \<and> r' = 5"
proof -
  let ?s0 = "Pool (0::nat) [5, 9]"
  let ?s1 = "\<lparr>available = [nullptr, 9], inUse = [5, nullptr], objs = (\<lambda>_. 0::nat), resets = []\<rparr>"
  let ?s2 = "\<lparr>available = [nullptr, nullptr], inUse = [5, 9], objs = (\<lambda>_. 0::nat), resets = []\<rparr>"
  have "acquire ?s0 = Inr (5, ?s1)"
    by (simp add: acquire_def Pool_def std_find_def)
  then have r1: "reachable id 0 [5, 9] ?s1"
    by (rule reachable.acquired [OF reachable.constructed])
  have "acquire ?s1 = Inr (9, ?s2)"
    by (simp add: acquire_def std_find_def)
  with r1 have r2: "reachable id 0 [5, 9] ?s2"
    by (rule reachable.acquired)
  have h: "heap_addrs [5, 9]" by (simp add: heap_addrs_def)
  from release_then_acquire [OF h r2, of 5] show ?thesis by simp
qed

section \<open>Calls of reset\<close>

text \<open>
  Claim C7. In a reachable state, a \<open>release\<close> whose argument is an object held in
  \<^verbatim>\<open>_inUse\<close> returns and makes exactly one call of \<^verbatim>\<open>reset()\<close>, on that object (the log
  grows by this one entry, and only this object's content changes, to its reset
  content); a \<open>release\<close> of a reference not in \<^verbatim>\<open>_inUse\<close> makes no call; and an
  \<open>acquire\<close>, granted or not, makes no call and leaves the content of every object as
  it was.
\<close>

theorem reset_called_once_at_release_only:
  assumes "heap_addrs addrs" and "reachable rst dflt addrs s"
  shows "(\<forall>obj. obj \<noteq> nullptr \<and> obj \<in> set (inUse s) \<longrightarrow>
            (\<exists>s'. release rst obj s = Inr s' \<and> resets s' = resets s @ [obj]
                  \<and> objs s' = (objs s)(obj := rst (objs s obj))))
       \<and> (\<forall>obj. obj \<notin> set (inUse s) \<longrightarrow>
            (\<exists>s'. release rst obj s = Inr s' \<and> resets s' = resets s \<and> objs s' = objs s))
       \<and> (\<exists>r s'. acquire s = Inr (r, s') \<and> resets s' = resets s \<and> objs s' = objs s)"
proof -
  have nz: "nullptr \<notin> set addrs" using assms(1) by (simp add: heap_addrs_def)
  have inv: "pool_inv addrs s" using nz assms(2) by (rule reachable_inv)
  have a: "\<exists>s'. release rst obj s = Inr s' \<and> resets s' = resets s @ [obj]
                  \<and> objs s' = (objs s)(obj := rst (objs s obj))"
    if "obj \<noteq> nullptr" and "obj \<in> set (inUse s)" for obj
    using release_tracked [OF inv that, of rst] by blast
  have b: "\<exists>s'. release rst obj s = Inr s' \<and> resets s' = resets s \<and> objs s' = objs s"
    if "obj \<notin> set (inUse s)" for obj
    using release_untracked [OF that, of rst] by simp
  have c: "\<exists>r s'. acquire s = Inr (r, s') \<and> resets s' = resets s \<and> objs s' = objs s"
  proof (cases "occupied (available s) = []")
    case True
    then show ?thesis using acquire_exhausted [of s] by simp
  next
    case False
    from acquire_grant [OF inv False] show ?thesis by blast
  qed
  from a b c show ?thesis by blast
qed

theorem reset_called_once_at_release_only_witness:
  "(\<exists>s'. release Suc 5 \<lparr>available = [nullptr, 9], inUse = [5, nullptr],
                         objs = (\<lambda>_. 0::nat), resets = []\<rparr> = Inr s'
          \<and> resets s' = [5] \<and> objs s' 5 = 1 \<and> objs s' 9 = 0)
   \<and> (\<exists>r s'. acquire (Pool (0::nat) [5, 9]) = Inr (r, s') \<and> resets s' = [] \<and> objs s' 5 = 0)"
proof -
  let ?s1 = "\<lparr>available = [nullptr, 9], inUse = [5, nullptr], objs = (\<lambda>_. 0::nat), resets = []\<rparr>"
  have h: "heap_addrs [5, 9]" by (simp add: heap_addrs_def)
  have r0: "reachable Suc 0 [5, 9] (Pool (0::nat) [5, 9])"
    by (rule reachable.constructed)
  have "acquire (Pool (0::nat) [5, 9]) = Inr (5, ?s1)"
    by (simp add: acquire_def Pool_def std_find_def)
  with r0 have r1: "reachable Suc 0 [5, 9] ?s1"
    by (rule reachable.acquired)
  have "\<exists>s'. release Suc 5 ?s1 = Inr s' \<and> resets s' = [5] \<and> objs s' 5 = 1 \<and> objs s' 9 = 0"
    using reset_called_once_at_release_only [OF h r1] by auto
  moreover have "\<exists>r s'. acquire (Pool (0::nat) [5, 9]) = Inr (r, s') \<and> resets s' = [] \<and> objs s' 5 = 0"
    using reset_called_once_at_release_only [OF h r0] by (auto simp: Pool_def)
  ultimately show ?thesis by blast
qed

section \<open>Loans along a run\<close>

lemma occupied_nonnull: "nullptr \<notin> set (occupied xs)"
  by (simp add: occupied_def)

lemma set_occupied: "set (occupied xs) = set xs - {nullptr}"
  by (auto simp: occupied_def)

lemma acquire_cases:
  assumes inv: "pool_inv addrs s" and acq: "acquire s = Inr (r, s')"
  obtains (exhausted) "occupied (available s) = []" and "r = nullptr" and "s' = s"
  | (granted) "occupied (available s) \<noteq> []" and "r \<noteq> nullptr"
      and "r \<in> set (occupied (available s))" and "pool_inv addrs s'"
      and "mset (occupied (inUse s')) = add_mset r (mset (occupied (inUse s)))"
proof (cases "occupied (available s) = []")
  case True
  from acquire_exhausted [OF True] acq have "r = nullptr" and "s' = s" by simp_all
  with True show ?thesis by (rule exhausted)
next
  case False
  from acquire_grant [OF inv False] acq
  have r: "r = hd (occupied (available s))" and inv': "pool_inv addrs s'"
    and iu: "mset (occupied (inUse s')) = add_mset r (mset (occupied (inUse s)))"
    by auto
  have mem: "r \<in> set (occupied (available s))" using False r by simp
  then have "r \<noteq> nullptr" using occupied_nonnull [of "available s"] by metis
  with False show ?thesis using mem inv' iu by (rule granted)
qed

lemma release_cases:
  assumes inv: "pool_inv addrs s" and rel: "release rst obj s = Inr s'"
  obtains (ignored) "obj \<notin> set (occupied (inUse s))" and "s' = s"
  | (accepted) "obj \<noteq> nullptr" and "obj \<in> set (occupied (inUse s))" and "pool_inv addrs s'"
      and "mset (occupied (inUse s')) = mset (occupied (inUse s)) - {#obj#}"
proof (cases "obj \<in> set (inUse s)")
  case False
  then have same: "s' = s" using rel release_untracked [of obj s rst] by simp
  have "obj \<notin> set (occupied (inUse s))" using False by (simp add: set_occupied)
  then show ?thesis using same by (rule ignored)
next
  case True
  have nz: "obj \<noteq> nullptr"
  proof
    assume "obj = nullptr"
    with True have "release rst obj s = Inl NullDeref" by (simp add: release_null)
    with rel show False by simp
  qed
  from release_tracked [OF inv nz True, of rst] rel
  have inv': "pool_inv addrs s'"
    and iu: "mset (occupied (inUse s')) = mset (occupied (inUse s)) - {#obj#}"
    by auto
  have "obj \<in> set (occupied (inUse s))" using True nz by (simp add: set_occupied)
  with nz show ?thesis using inv' iu by (rule accepted)
qed

lemma run_Acquire_fst:
  "acquire s = Inr (r, s') \<Longrightarrow> fst (run rst (Acquire # ops) s) = Acq r # fst (run rst ops s')"
  by (simp split: prod.splits)

lemma run_Release_fst:
  "release rst obj s = Inr s' \<Longrightarrow> fst (run rst (Release obj # ops) s) = Rel obj # fst (run rst ops s')"
  by (simp split: prod.splits)

lemma tracked_loans_distinct:
  assumes "heap_addrs addrs" and "pool_inv addrs s" and "mset held = mset (occupied (inUse s))"
  shows "distinct held"
proof -
  have "distinct (occupied (available s) @ occupied (inUse s))"
    using assms(1,2) by (rule pool_inv_distinct)
  then have "distinct (occupied (inUse s))" by simp
  with mset_eq_imp_distinct_iff [OF assms(3)] show ?thesis by blast
qed

lemma run_loans:
  assumes "heap_addrs addrs" and "pool_inv addrs s"
    and "mset held = mset (occupied (inUse s))"
  shows "distinct (loans (fst (run rst ops s)) held)"
  using assms(2,3)
proof (induction ops arbitrary: s held)
  case Nil
  then show ?case using tracked_loans_distinct [OF assms(1)] by simp
next
  case (Cons c ops)
  have base: "distinct held"
    using assms(1) Cons.prems by (rule tracked_loans_distinct)
  show ?case
  proof (cases c)
    case Acquire
    show ?thesis
    proof (cases "acquire s")
      case (Inl f)
      with Acquire base show ?thesis by simp
    next
      case (Inr p)
      obtain r s' where p: "p = (r, s')" by (cases p)
      from Cons.prems(1) Inr [unfolded p] show ?thesis
      proof (cases rule: acquire_cases)
        case exhausted
        with Cons.IH [OF Cons.prems] Acquire Inr p show ?thesis
          by (simp only: run_Acquire_fst) simp
      next
        case granted
        have "mset (r # held) = mset (occupied (inUse s'))"
          using granted(5) Cons.prems(2) by simp
        from Cons.IH [OF granted(4) this] Acquire Inr p granted(2) show ?thesis
          by (simp only: run_Acquire_fst) simp
      qed
    qed
  next
    case (Release obj)
    show ?thesis
    proof (cases "release rst obj s")
      case (Inl f)
      with Release base show ?thesis by simp
    next
      case (Inr s')
      from Cons.prems(1) Inr show ?thesis
      proof (cases rule: release_cases)
        case ignored
        have "obj \<notin> set held"
          using ignored(1) mset_eq_setD [OF Cons.prems(2)] by simp
        then have "remove1 obj held = held" by (rule remove1_idem)
        with Cons.IH [OF Cons.prems] Release Inr ignored(2) show ?thesis
          by (simp only: run_Release_fst) simp
      next
        case accepted
        have "mset (remove1 obj held) = mset (occupied (inUse s'))"
          using accepted(4) Cons.prems(2) by simp
        from Cons.IH [OF accepted(3) this] Release Inr show ?thesis
          by (simp only: run_Release_fst) simp
      qed
    qed
  qed
qed

text \<open>
  Claim C4. Along every run from construction, the loans outstanding at any moment
  (one entry for each successful acquire not yet handed back by a release) are pairwise
  different references: no object is lent to two live loans.
\<close>

theorem live_loans_distinct:
  assumes "heap_addrs addrs"
  shows "distinct (loans (fst (run rst ops (Pool dflt addrs))) [])"
proof -
  have nz: "nullptr \<notin> set addrs" using assms by (simp add: heap_addrs_def)
  have inv: "pool_inv addrs (Pool dflt addrs)" using nz by (rule pool_inv_Pool)
  have "mset [] = mset (occupied (inUse (Pool dflt addrs)))"
    by (simp add: Pool_def occupied_def)
  with assms inv show ?thesis by (rule run_loans)
qed

theorem live_loans_distinct_witness:
  "distinct (loans (fst (run id [Acquire, Acquire, Release 5, Acquire] (Pool (1::nat) [5, 9]))) [])
   \<and> loans (fst (run id [Acquire, Acquire, Release 5, Acquire] (Pool (1::nat) [5, 9]))) [] = [5, 9]"
proof -
  have h: "heap_addrs [5, 9]" by (simp add: heap_addrs_def)
  have "loans (fst (run id [Acquire, Acquire, Release 5, Acquire] (Pool (1::nat) [5, 9]))) [] = [5, 9]"
    by (simp add: acquire_def release_def Pool_def std_find_def Let_def)
  with live_loans_distinct [OF h, of id "[Acquire, Acquire, Release 5, Acquire]" "1::nat"]
  show ?thesis by simp
qed

section \<open>Runs within capacity\<close>

lemma run_within_capacity:
  assumes "pool_inv addrs s" and "mset held = mset (occupied (inUse s))"
    and "within_capacity (length addrs) (fst (run rst ops s)) held"
    and "Acq r \<in> set (fst (run rst ops s))"
  shows "r \<noteq> nullptr \<and> r \<in> set addrs"
  using assms
proof (induction ops arbitrary: s held)
  case Nil
  then show ?case by simp
next
  case (Cons c ops)
  show ?case
  proof (cases c)
    case Acquire
    show ?thesis
    proof (cases "acquire s")
      case (Inl f)
      with Acquire Cons.prems(4) show ?thesis by simp
    next
      case (Inr p)
      obtain a s' where p: "p = (a, s')" by (cases p)
      have acq: "acquire s = Inr (a, s')" using Inr p by simp
      have tr: "fst (run rst (c # ops) s) = Acq a # fst (run rst ops s')"
        using Acquire acq by (simp only: run_Acquire_fst)
      have room: "length held < length addrs"
        using Cons.prems(3) by (simp add: tr)
      have "length held = length (occupied (inUse s))"
        using Cons.prems(2) by (rule mset_eq_length)
      with room pool_inv_sizes [OF Cons.prems(1)]
      have some: "occupied (available s) \<noteq> []" by auto
      from Cons.prems(1) acq show ?thesis
      proof (cases rule: acquire_cases)
        case exhausted
        with some show ?thesis by simp
      next
        case granted
        have "a \<in># mset (occupied (available s)) + mset (occupied (inUse s))"
          using granted(3) by simp
        then have "a \<in># mset addrs"
          using Cons.prems(1) by (simp only: pool_inv_def)
        then have a_ok: "a \<noteq> nullptr \<and> a \<in> set addrs"
          using granted(2) by simp
        have held': "mset (a # held) = mset (occupied (inUse s'))"
          using granted(5) Cons.prems(2) by simp
        have cap': "within_capacity (length addrs) (fst (run rst ops s')) (a # held)"
          using Cons.prems(3) granted(2) by (simp add: tr)
        show ?thesis
        proof (cases "r = a")
          case True
          with a_ok show ?thesis by simp
        next
          case False
          then have "Acq r \<in> set (fst (run rst ops s'))"
            using Cons.prems(4) by (simp add: tr)
          with Cons.IH [OF granted(4) held' cap'] show ?thesis by simp
        qed
      qed
    qed
  next
    case (Release obj)
    show ?thesis
    proof (cases "release rst obj s")
      case (Inl f)
      with Release Cons.prems(4) show ?thesis by simp
    next
      case (Inr s')
      have tr: "fst (run rst (c # ops) s) = Rel obj # fst (run rst ops s')"
        using Release Inr by (simp only: run_Release_fst)
      have cap': "within_capacity (length addrs) (fst (run rst ops s')) (remove1 obj held)"
        using Cons.prems(3) by (simp add: tr)
      have mem': "Acq r \<in> set (fst (run rst ops s'))"
        using Cons.prems(4) by (simp add: tr)
      from Cons.prems(1) Inr show ?thesis
      proof (cases rule: release_cases)
        case ignored
        have "obj \<notin> set held"
          using ignored(1) mset_eq_setD [OF Cons.prems(2)] by simp
        then have "remove1 obj held = held" by (rule remove1_idem)
        with Cons.IH [OF Cons.prems(1,2)] cap' mem' ignored(2) show ?thesis by simp
      next
        case accepted
        have "mset (remove1 obj held) = mset (occupied (inUse s'))"
          using accepted(4) Cons.prems(2) by simp
        from Cons.IH [OF accepted(3) this cap' mem'] show ?thesis .
      qed
    qed
  qed
qed

text \<open>
  A run whose script never passes \<^verbatim>\<open>nullptr\<close> to \<open>release\<close> has no fault: every call
  returns, so the trace has one event for each call of the script.
\<close>

lemma run_returns:
  assumes "pool_inv addrs s" and "Release nullptr \<notin> set ops"
  shows "\<exists>evs s'. run rst ops s = (evs, Inr s') \<and> length evs = length ops"
  using assms
proof (induction ops arbitrary: s)
  case Nil
  then show ?case by simp
next
  case (Cons c ops)
  have rest: "Release nullptr \<notin> set ops" using Cons.prems(2) by simp
  show ?case
  proof (cases c)
    case Acquire
    have "\<exists>r s'. acquire s = Inr (r, s')"
    proof (cases "occupied (available s) = []")
      case True
      then show ?thesis by (blast dest: acquire_exhausted)
    next
      case False
      from acquire_grant [OF Cons.prems(1) False] show ?thesis by blast
    qed
    then obtain r s' where acq: "acquire s = Inr (r, s')" by blast
    with Cons.prems(1) have "pool_inv addrs s'" by (rule acquire_inv)
    from Cons.IH [OF this rest] Acquire acq show ?thesis by auto
  next
    case (Release obj)
    then have nz: "obj \<noteq> nullptr" using Cons.prems(2) by auto
    have "\<exists>s'. release rst obj s = Inr s'"
    proof (cases "obj \<in> set (inUse s)")
      case False
      then show ?thesis by (blast dest: release_untracked)
    next
      case True
      from release_tracked [OF Cons.prems(1) nz True] show ?thesis by blast
    qed
    then obtain s' where rel: "release rst obj s = Inr s'" by blast
    with Cons.prems(1) have "pool_inv addrs s'" by (rule release_inv)
    from Cons.IH [OF this rest] Release rel show ?thesis by auto
  qed
qed

text \<open>
  Claim C6. Take any script of acquire and release calls, run from construction, in which
  every acquire is issued while fewer than \<open>N\<close> loans are outstanding (so the loans
  never exceed \<open>N\<close>). Then every acquire of the run returns a non-null reference, never
  the exhaustion signal, and that reference is one of the \<open>N\<close> objects made at
  construction. Moreover, unless the script passes \<^verbatim>\<open>nullptr\<close> to \<open>release\<close>, the run
  has no fault: each call of the script returns.
\<close>

theorem within_capacity_never_exhausted:
  assumes "heap_addrs addrs"
    and "within_capacity (length addrs) (fst (run rst ops (Pool dflt addrs))) []"
  shows "(\<forall>r. Acq r \<in> set (fst (run rst ops (Pool dflt addrs))) \<longrightarrow>
            r \<noteq> nullptr \<and> r \<in> set addrs)
       \<and> (Release nullptr \<notin> set ops \<longrightarrow>
            (\<exists>s'. snd (run rst ops (Pool dflt addrs)) = Inr s')
            \<and> length (fst (run rst ops (Pool dflt addrs))) = length ops)"
proof (intro conjI allI impI)
  have nz: "nullptr \<notin> set addrs" using assms(1) by (simp add: heap_addrs_def)
  have inv: "pool_inv addrs (Pool dflt addrs)" using nz by (rule pool_inv_Pool)
  have held: "mset [] = mset (occupied (inUse (Pool dflt addrs)))"
    by (simp add: Pool_def occupied_def)
  {
    fix r
    assume mem: "Acq r \<in> set (fst (run rst ops (Pool dflt addrs)))"
    from inv held assms(2) mem show "r \<noteq> nullptr" and "r \<in> set addrs"
      by (simp_all add: run_within_capacity)
  }
  assume "Release nullptr \<notin> set ops"
  with inv obtain evs s' where
    "run rst ops (Pool dflt addrs) = (evs, Inr s')" and "length evs = length ops"
    using run_returns [of addrs "Pool dflt addrs" ops rst] by blast
  then show "\<exists>s'. snd (run rst ops (Pool dflt addrs)) = Inr s'"
    and "length (fst (run rst ops (Pool dflt addrs))) = length ops"
    by simp_all
qed

theorem within_capacity_never_exhausted_witness:
  "within_capacity 2 (fst (run id [Acquire, Acquire, Release 5, Acquire] (Pool (1::nat) [5, 9]))) []
   \<and> fst (run id [Acquire, Acquire, Release 5, Acquire] (Pool (1::nat) [5, 9]))
       = [Acq 5, Acq 9, Rel 5, Acq 5]
   \<and> Acq nullptr \<notin> set (fst (run id [Acquire, Acquire, Release 5, Acquire] (Pool (1::nat) [5, 9])))"
proof -
  have h: "heap_addrs [5, 9]" by (simp add: heap_addrs_def)
  have tr: "fst (run id [Acquire, Acquire, Release 5, Acquire] (Pool (1::nat) [5, 9]))
              = [Acq 5, Acq 9, Rel 5, Acq 5]"
    by (simp add: acquire_def release_def Pool_def std_find_def Let_def)
  have cap: "within_capacity (length [5, 9 :: nat])
               (fst (run id [Acquire, Acquire, Release 5, Acquire] (Pool (1::nat) [5, 9]))) []"
    unfolding tr by simp
  show ?thesis
    using within_capacity_never_exhausted [OF h cap] cap unfolding tr by simp
qed

section \<open>The multiset-based pool keeps the same invariant\<close>

lemma mset_occupied: "mset (occupied xs) = filter_mset (\<lambda>mem. mem \<noteq> nullptr) (mset xs)"
  by (simp add: occupied_def)

lemma mset_erase_at:
  assumes "i < length xs"
  shows "mset (erase_at i xs) = mset xs - {#xs ! i#}"
proof -
  have "xs = take i xs @ xs ! i # drop (Suc i) xs"
    using assms by (rule id_take_nth_drop)
  then have "mset xs = add_mset (xs ! i) (mset (erase_at i xs))"
    by (metis erase_at_def mset.simps(2) mset_append union_mset_add_mset_right)
  then show ?thesis by simp
qed

lemma length_reinsert:
  assumes "i < length xs"
  shows "length (insort v (erase_at i xs)) = length xs"
proof -
  have "size (mset (insort v (erase_at i xs))) = size (add_mset v (mset xs - {#xs ! i#}))"
    using assms by (simp add: mset_erase_at)
  also have "\<dots> = size (mset xs)"
    using assms by (simp add: size_Diff_singleton)
  finally show ?thesis by simp
qed

lemma ms_occupied_clear:
  assumes "i < length xs"
  shows "mset (occupied (insort nullptr (erase_at i xs))) = mset (occupied xs) - {#xs ! i#}"
proof -
  have "mset (occupied (insort nullptr (erase_at i xs)))
          = filter_mset (\<lambda>mem. mem \<noteq> nullptr) (mset xs - {#xs ! i#})"
    using assms by (simp add: mset_occupied mset_erase_at)
  also have "\<dots> = mset (occupied xs) - {#xs ! i#}"
    by (cases "xs ! i = nullptr") (simp_all add: mset_occupied diff_single_trivial)
  finally show ?thesis .
qed

lemma ms_occupied_store:
  assumes "i < length xs" and "xs ! i = nullptr" and "m \<noteq> nullptr"
  shows "mset (occupied (insort m (erase_at i xs))) = add_mset m (mset (occupied xs))"
proof -
  have "mset (occupied (insort m (erase_at i xs)))
          = filter_mset (\<lambda>mem. mem \<noteq> nullptr) (add_mset m (mset xs - {#nullptr#}))"
    using assms by (simp add: mset_occupied mset_erase_at)
  also have "\<dots> = add_mset m (mset (occupied xs))"
    using assms by (simp add: mset_occupied diff_single_trivial)
  finally show ?thesis .
qed

lemma ms_fill_available:
  "mset (ms_available (ms_fill addrs t)) = mset addrs + mset (ms_available t)"
  by (induction addrs arbitrary: t) simp_all

lemma ms_fill_inUse:
  "mset (ms_inUse (ms_fill addrs t)) = replicate_mset (length addrs) nullptr + mset (ms_inUse t)"
  by (induction addrs arbitrary: t) simp_all

lemma ms_pool_inv_sizes:
  assumes "ms_pool_inv addrs t"
  shows "length (occupied (ms_available t)) + length (occupied (ms_inUse t)) = length addrs"
proof -
  have "size (mset (occupied (ms_available t)) + mset (occupied (ms_inUse t))) = size (mset addrs)"
    using assms by (simp add: ms_pool_inv_def)
  then show ?thesis by simp
qed

lemma ms_pool_inv_Pool:
  assumes "nullptr \<notin> set addrs"
  shows "ms_pool_inv addrs (ms_Pool dflt addrs)"
proof -
  let ?t = "ms_Pool dflt addrs"
  have av: "mset (ms_available ?t) = mset addrs"
    by (simp add: ms_Pool_def ms_fill_available)
  have iu: "mset (ms_inUse ?t) = replicate_mset (length addrs) nullptr"
    by (simp add: ms_Pool_def ms_fill_inUse)
  have "\<forall>x \<in> set addrs. x \<noteq> nullptr" using assms by metis
  then have "occupied addrs = addrs"
    unfolding occupied_def by (simp only: filter_id_conv)
  then have "filter_mset (\<lambda>mem. mem \<noteq> nullptr) (mset addrs) = mset addrs"
    using mset_occupied [of addrs] by simp
  then have "mset (occupied (ms_available ?t)) = mset addrs"
    by (simp only: mset_occupied av)
  moreover have "mset (occupied (ms_inUse ?t)) = {#}"
    by (simp add: mset_occupied iu)
  moreover have "length (ms_available ?t) = length addrs"
    using av by (metis size_mset)
  moreover have "length (ms_inUse ?t) = length addrs"
    using iu by (metis size_mset size_replicate_mset)
  ultimately show ?thesis by (simp add: ms_pool_inv_def)
qed

lemma ms_acquire_exhausted:
  assumes "occupied (ms_available t) = []"
  shows "ms_acquire t = Inr (nullptr, t)"
proof -
  have "\<forall>x \<in> set (ms_available t). \<not> x \<noteq> nullptr"
    using assms by (simp add: occupied_def filter_empty_conv)
  then have "std_find_if (\<lambda>mem. mem \<noteq> nullptr) (ms_available t) = length (ms_available t)"
    by (simp only: std_find_if_end)
  then show ?thesis by (simp add: ms_acquire_def)
qed

lemma ms_acquire_grant:
  assumes inv: "ms_pool_inv addrs t" and some: "occupied (ms_available t) \<noteq> []"
  shows "\<exists>t'. ms_acquire t = Inr (hd (occupied (ms_available t)), t')
           \<and> ms_pool_inv addrs t'
           \<and> mset (occupied (ms_available t'))
               = mset (occupied (ms_available t)) - {#hd (occupied (ms_available t))#}
           \<and> mset (occupied (ms_inUse t'))
               = add_mset (hd (occupied (ms_available t))) (mset (occupied (ms_inUse t)))
           \<and> ms_objs t' = ms_objs t \<and> ms_resets t' = ms_resets t"
proof -
  define i where "i = std_find_if (\<lambda>mem. mem \<noteq> nullptr) (ms_available t)"
  define r where "r = hd (occupied (ms_available t))"
  define j where "j = std_find nullptr (ms_inUse t)"
  have "\<exists>x \<in> set (ms_available t). x \<noteq> nullptr"
    using some by (simp add: occupied_def filter_empty_conv)
  then have i_lt: "i < length (ms_available t)"
    unfolding i_def by (simp only: std_find_if_lt)
  have r_at: "ms_available t ! i = r"
    using std_find_if_filter [of "\<lambda>mem. mem \<noteq> nullptr" "ms_available t"] i_lt
    by (simp add: i_def r_def occupied_def)
  have r_nz: "r \<noteq> nullptr"
    using std_find_if_hit [of "\<lambda>mem. mem \<noteq> nullptr" "ms_available t"] i_lt r_at
    by (simp add: i_def)
  have r_in: "r \<in># mset (occupied (ms_available t))"
    using some by (simp add: r_def)
  have "1 \<le> length (occupied (ms_available t))"
    using some by (cases "occupied (ms_available t)") simp_all
  moreover have "length (ms_inUse t) = length addrs"
    using inv by (simp add: ms_pool_inv_def)
  ultimately have "length (occupied (ms_inUse t)) < length (ms_inUse t)"
    using ms_pool_inv_sizes [OF inv] by linarith
  then have "nullptr \<in> set (ms_inUse t)" by (rule empty_slot_exists)
  then have j_lt: "j < length (ms_inUse t)" and j_at: "ms_inUse t ! j = nullptr"
    by (simp_all add: j_def std_find_lt std_find_hit)
  define t' where "t' = t\<lparr>ms_available := insort nullptr (erase_at i (ms_available t)),
                          ms_inUse := insort r (erase_at j (ms_inUse t))\<rparr>"
  have acq: "ms_acquire t = Inr (r, t')"
    unfolding ms_acquire_def Let_def i_def [symmetric] j_def [symmetric] t'_def
    using i_lt j_lt r_at by simp
  have av: "mset (occupied (ms_available t')) = mset (occupied (ms_available t)) - {#r#}"
    using ms_occupied_clear [OF i_lt] r_at by (simp add: t'_def)
  have iu: "mset (occupied (ms_inUse t')) = add_mset r (mset (occupied (ms_inUse t)))"
    using ms_occupied_store [OF j_lt j_at r_nz] by (simp add: t'_def)
  have "mset (occupied (ms_available t')) + mset (occupied (ms_inUse t'))
          = add_mset r (mset (occupied (ms_available t)) - {#r#}) + mset (occupied (ms_inUse t))"
    by (simp add: av iu)
  also have "\<dots> = mset (occupied (ms_available t)) + mset (occupied (ms_inUse t))"
    by (simp only: insert_DiffM [OF r_in])
  finally have "mset (occupied (ms_available t')) + mset (occupied (ms_inUse t')) = mset addrs"
    using inv by (simp only: ms_pool_inv_def)
  moreover have "length (ms_available t') = length addrs" "length (ms_inUse t') = length addrs"
    using inv length_reinsert [OF i_lt] length_reinsert [OF j_lt]
    by (simp_all add: ms_pool_inv_def t'_def)
  ultimately have "ms_pool_inv addrs t'"
    by (simp add: ms_pool_inv_def)
  then show ?thesis
    using acq av iu by (auto simp: r_def t'_def)
qed

lemma ms_release_untracked:
  assumes "obj \<notin> set (ms_inUse t)"
  shows "ms_release rst obj t = Inr t"
  using assms by (simp add: ms_release_def std_find_end)

lemma ms_release_null:
  assumes "nullptr \<in> set (ms_inUse t)"
  shows "ms_release rst nullptr t = Inl NullDeref"
  using assms std_find_lt [of nullptr "ms_inUse t"] by (simp add: ms_release_def)

lemma ms_release_tracked:
  assumes inv: "ms_pool_inv addrs t" and nz: "obj \<noteq> nullptr" and lent: "obj \<in> set (ms_inUse t)"
  shows "\<exists>t'. ms_release rst obj t = Inr t'
           \<and> ms_pool_inv addrs t'
           \<and> mset (occupied (ms_inUse t')) = mset (occupied (ms_inUse t)) - {#obj#}
           \<and> mset (occupied (ms_available t')) = add_mset obj (mset (occupied (ms_available t)))
           \<and> ms_objs t' = (ms_objs t)(obj := rst (ms_objs t obj))
           \<and> ms_resets t' = ms_resets t @ [obj]"
proof -
  define i where "i = std_find obj (ms_inUse t)"
  define j where "j = std_find nullptr (ms_available t)"
  have i_lt: "i < length (ms_inUse t)" and i_at: "ms_inUse t ! i = obj"
    using lent by (simp_all add: i_def std_find_lt std_find_hit)
  have obj_in: "obj \<in># mset (occupied (ms_inUse t))"
    using lent nz by (simp add: occupied_def)
  then have "1 \<le> length (occupied (ms_inUse t))"
    by (cases "occupied (ms_inUse t)") simp_all
  moreover have "length (ms_available t) = length addrs"
    using inv by (simp add: ms_pool_inv_def)
  ultimately have "length (occupied (ms_available t)) < length (ms_available t)"
    using ms_pool_inv_sizes [OF inv] by linarith
  then have "nullptr \<in> set (ms_available t)" by (rule empty_slot_exists)
  then have j_lt: "j < length (ms_available t)" and j_at: "ms_available t ! j = nullptr"
    by (simp_all add: j_def std_find_lt std_find_hit)
  define t' where "t' = t\<lparr>ms_available := insort obj (erase_at j (ms_available t)),
                          ms_inUse := insort nullptr (erase_at i (ms_inUse t)),
                          ms_objs := (ms_objs t)(obj := rst (ms_objs t obj)),
                          ms_resets := ms_resets t @ [obj]\<rparr>"
  have rel: "ms_release rst obj t = Inr t'"
    unfolding ms_release_def Let_def i_def [symmetric] j_def [symmetric] t'_def
    using i_lt j_lt i_at nz by simp
  have iu: "mset (occupied (ms_inUse t')) = mset (occupied (ms_inUse t)) - {#obj#}"
    using ms_occupied_clear [OF i_lt] i_at by (simp add: t'_def)
  have av: "mset (occupied (ms_available t')) = add_mset obj (mset (occupied (ms_available t)))"
    using ms_occupied_store [OF j_lt j_at nz] by (simp add: t'_def)
  have "mset (occupied (ms_available t')) + mset (occupied (ms_inUse t'))
          = mset (occupied (ms_available t)) + add_mset obj (mset (occupied (ms_inUse t)) - {#obj#})"
    by (simp add: av iu)
  also have "\<dots> = mset (occupied (ms_available t)) + mset (occupied (ms_inUse t))"
    by (simp only: insert_DiffM [OF obj_in])
  finally have "mset (occupied (ms_available t')) + mset (occupied (ms_inUse t')) = mset addrs"
    using inv by (simp only: ms_pool_inv_def)
  moreover have "length (ms_available t') = length addrs" "length (ms_inUse t') = length addrs"
    using inv length_reinsert [OF i_lt] length_reinsert [OF j_lt]
    by (simp_all add: ms_pool_inv_def t'_def)
  ultimately have "ms_pool_inv addrs t'"
    by (simp add: ms_pool_inv_def)
  then show ?thesis
    using rel av iu by (auto simp: t'_def)
qed

lemma ms_reachable_inv:
  assumes "nullptr \<notin> set addrs" and "ms_reachable rst dflt addrs t"
  shows "ms_pool_inv addrs t"
  using assms(2)
proof (induction rule: ms_reachable.induct)
  case ms_constructed
  show ?case using assms(1) by (rule ms_pool_inv_Pool)
next
  case (ms_acquired t r t')
  show ?case
  proof (cases "occupied (ms_available t) = []")
    case True
    with ms_acquired ms_acquire_exhausted [of t] show ?thesis by simp
  next
    case False
    from ms_acquire_grant [OF ms_acquired.IH False] ms_acquired.hyps(2) show ?thesis by auto
  qed
next
  case (ms_released t obj t')
  show ?case
  proof (cases "obj \<in> set (ms_inUse t)")
    case False
    with ms_released ms_release_untracked [of obj t rst] show ?thesis by simp
  next
    case True
    show ?thesis
    proof (cases "obj = nullptr")
      case True
      with \<open>obj \<in> set (ms_inUse t)\<close> ms_released.hyps(2) ms_release_null [of t rst]
      show ?thesis by simp
    next
      case False
      from ms_release_tracked [OF ms_released.IH False True, of rst] ms_released.hyps(2)
      show ?thesis by auto
    qed
  qed
qed

text \<open>The unchecked search in the multiset-based \<open>acquire\<close> succeeds as well.\<close>

lemma ms_acquire_finds_empty_slot:
  assumes "heap_addrs addrs" and "ms_reachable rst dflt addrs t"
    and "std_find_if (\<lambda>mem. mem \<noteq> nullptr) (ms_available t) \<noteq> length (ms_available t)"
  shows "std_find nullptr (ms_inUse t) < length (ms_inUse t)"
proof -
  have "nullptr \<notin> set addrs" using assms(1) by (simp add: heap_addrs_def)
  then have inv: "ms_pool_inv addrs t" using assms(2) by (rule ms_reachable_inv)
  have "\<exists>x \<in> set (ms_available t). x \<noteq> nullptr"
    using assms(3) by (simp only: std_find_if_end) blast
  then have some: "occupied (ms_available t) \<noteq> []"
    by (simp add: occupied_def filter_empty_conv)
  from ms_acquire_grant [OF inv some] obtain r t' where "ms_acquire t = Inr (r, t')" by blast
  then have "std_find nullptr (ms_inUse t) \<noteq> length (ms_inUse t)"
    using assms(3) by (auto simp: ms_acquire_def Let_def split: if_splits)
  moreover have "std_find nullptr (ms_inUse t) \<le> length (ms_inUse t)"
    unfolding std_find_def by (rule std_find_if_le)
  ultimately show ?thesis by simp
qed

section \<open>The two implementations side by side\<close>

lemma tracking_facts:
  assumes "heap_addrs addrs"
    and "length av = length addrs" and "length iu = length addrs"
    and "mset (occupied av) + mset (occupied iu) = mset addrs"
  shows "set (occupied av) = set addrs - set (occupied iu)"
    and "set (occupied iu) \<subseteq> set addrs"
    and "distinct (occupied iu)"
    and "occupied av = [] \<longleftrightarrow> set (occupied iu) = set addrs"
    and "nullptr \<in> set iu \<longleftrightarrow> set (occupied iu) \<noteq> set addrs"
proof -
  have eq: "mset (occupied av @ occupied iu) = mset addrs" using assms(4) by simp
  have "distinct addrs" using assms(1) by (simp add: heap_addrs_def)
  with mset_eq_imp_distinct_iff [OF eq] have d: "distinct (occupied av @ occupied iu)" by blast
  have u: "set (occupied av) \<union> set (occupied iu) = set addrs"
    using mset_eq_setD [OF eq] by simp
  show 1: "set (occupied av) = set addrs - set (occupied iu)" using d u by auto
  show 2: "set (occupied iu) \<subseteq> set addrs" using u by auto
  show 3: "distinct (occupied iu)" using d by simp
  show 4: "occupied av = [] \<longleftrightarrow> set (occupied iu) = set addrs"
    using 1 2 by auto
  have len: "length (occupied av) + length (occupied iu) = length iu"
    using mset_eq_length [OF eq] assms(3) by simp
  have "nullptr \<in> set iu \<longleftrightarrow> length (occupied iu) < length iu"
  proof
    assume "nullptr \<in> set iu"
    then have "count_list iu nullptr \<noteq> 0" by (simp add: count_list_0_iff)
    with occupied_length [of iu] show "length (occupied iu) < length iu" by linarith
  next
    assume "length (occupied iu) < length iu"
    then show "nullptr \<in> set iu" by (rule empty_slot_exists)
  qed
  also have "\<dots> \<longleftrightarrow> occupied av \<noteq> []"
    using len by (cases "occupied av") auto
  finally show "nullptr \<in> set iu \<longleftrightarrow> set (occupied iu) \<noteq> set addrs"
    using 4 by simp
qed

lemma set_after_take:
  assumes "distinct xs" and "mset ys = mset xs - {#x#}"
  shows "set ys = set xs - {x}"
proof -
  have "mset ys = mset (remove1 x xs)" using assms(2) by simp
  then have "set ys = set (remove1 x xs)" by (rule mset_eq_setD)
  with assms(1) show ?thesis by simp
qed

lemma set_after_put:
  assumes "mset ys = add_mset x (mset xs)"
  shows "set ys = insert x (set xs)"
proof -
  have "mset ys = mset (x # xs)" using assms by simp
  then have "set ys = set (x # xs)" by (rule mset_eq_setD)
  then show ?thesis by simp
qed

lemma acquire_lent:
  assumes h: "heap_addrs addrs" and inv: "pool_inv addrs s"
  shows "\<exists>r s'. acquire s = Inr (r, s')
           \<and> (r = nullptr \<longleftrightarrow> lent s = set addrs)
           \<and> (r = nullptr \<longrightarrow> s' = s)
           \<and> (r \<noteq> nullptr \<longrightarrow> r \<in> set addrs - lent s \<and> lent s' = insert r (lent s))"
proof -
  note f = tracking_facts [OF h, of "available s" "inUse s"]
  have pre: "length (available s) = length addrs" "length (inUse s) = length addrs"
    "mset (occupied (available s)) + mset (occupied (inUse s)) = mset addrs"
    using inv by (simp_all add: pool_inv_def)
  show ?thesis
  proof (cases "occupied (available s) = []")
    case True
    then have "lent s = set addrs" using f(4) [OF pre] by (simp add: lent_def)
    with acquire_exhausted [OF True] show ?thesis by simp
  next
    case False
    then have notall: "lent s \<noteq> set addrs" using f(4) [OF pre] by (simp add: lent_def)
    from acquire_grant [OF inv False] obtain s' where
      acq: "acquire s = Inr (hd (occupied (available s)), s')"
      and iu: "mset (occupied (inUse s')) = add_mset (hd (occupied (available s))) (mset (occupied (inUse s)))"
      by blast
    have "hd (occupied (available s)) \<in> set (occupied (available s))" using False by simp
    then have mem: "hd (occupied (available s)) \<in> set addrs - lent s"
      using f(1) [OF pre] by (simp add: lent_def)
    then have nz: "hd (occupied (available s)) \<noteq> nullptr"
      using h unfolding heap_addrs_def by (metis DiffD1)
    have "lent s' = insert (hd (occupied (available s))) (lent s)"
      unfolding lent_def using iu by (rule set_after_put)
    with acq mem nz notall show ?thesis by simp
  qed
qed

lemma ms_acquire_lent:
  assumes h: "heap_addrs addrs" and inv: "ms_pool_inv addrs t"
  shows "\<exists>r t'. ms_acquire t = Inr (r, t')
           \<and> (r = nullptr \<longleftrightarrow> ms_lent t = set addrs)
           \<and> (r = nullptr \<longrightarrow> t' = t)
           \<and> (r \<noteq> nullptr \<longrightarrow> r \<in> set addrs - ms_lent t \<and> ms_lent t' = insert r (ms_lent t))"
proof -
  note f = tracking_facts [OF h, of "ms_available t" "ms_inUse t"]
  have pre: "length (ms_available t) = length addrs" "length (ms_inUse t) = length addrs"
    "mset (occupied (ms_available t)) + mset (occupied (ms_inUse t)) = mset addrs"
    using inv by (simp_all add: ms_pool_inv_def)
  show ?thesis
  proof (cases "occupied (ms_available t) = []")
    case True
    then have "ms_lent t = set addrs" using f(4) [OF pre] by (simp add: ms_lent_def)
    with ms_acquire_exhausted [OF True] show ?thesis by simp
  next
    case False
    then have notall: "ms_lent t \<noteq> set addrs" using f(4) [OF pre] by (simp add: ms_lent_def)
    from ms_acquire_grant [OF inv False] obtain t' where
      acq: "ms_acquire t = Inr (hd (occupied (ms_available t)), t')"
      and iu: "mset (occupied (ms_inUse t'))
                 = add_mset (hd (occupied (ms_available t))) (mset (occupied (ms_inUse t)))"
      by blast
    have "hd (occupied (ms_available t)) \<in> set (occupied (ms_available t))" using False by simp
    then have mem: "hd (occupied (ms_available t)) \<in> set addrs - ms_lent t"
      using f(1) [OF pre] by (simp add: ms_lent_def)
    then have nz: "hd (occupied (ms_available t)) \<noteq> nullptr"
      using h unfolding heap_addrs_def by (metis DiffD1)
    have "ms_lent t' = insert (hd (occupied (ms_available t))) (ms_lent t)"
      unfolding ms_lent_def using iu by (rule set_after_put)
    with acq mem nz notall show ?thesis by simp
  qed
qed

lemma release_lent:
  assumes h: "heap_addrs addrs" and inv: "pool_inv addrs s" and nz: "obj \<noteq> nullptr"
  shows "\<exists>s'. release rst obj s = Inr s' \<and> lent s' = lent s - {obj}
           \<and> (if obj \<in> lent s then resets s' = resets s @ [obj] else s' = s)"
proof -
  have pre: "length (available s) = length addrs" "length (inUse s) = length addrs"
    "mset (occupied (available s)) + mset (occupied (inUse s)) = mset addrs"
    using inv by (simp_all add: pool_inv_def)
  have d: "distinct (occupied (inUse s))"
    using tracking_facts(3) [OF h pre] .
  have mem: "obj \<in> lent s \<longleftrightarrow> obj \<in> set (inUse s)"
    using nz by (simp add: lent_def set_occupied)
  show ?thesis
  proof (cases "obj \<in> set (inUse s)")
    case False
    with release_untracked [OF False, of rst] mem show ?thesis by simp
  next
    case True
    from release_tracked [OF inv nz True, of rst] obtain s' where
      rel: "release rst obj s = Inr s'"
      and iu: "mset (occupied (inUse s')) = mset (occupied (inUse s)) - {#obj#}"
      and log: "resets s' = resets s @ [obj]"
      by blast
    have "lent s' = lent s - {obj}"
      unfolding lent_def using d iu by (rule set_after_take)
    with rel log True mem show ?thesis by simp
  qed
qed

lemma ms_release_lent:
  assumes h: "heap_addrs addrs" and inv: "ms_pool_inv addrs t" and nz: "obj \<noteq> nullptr"
  shows "\<exists>t'. ms_release rst obj t = Inr t' \<and> ms_lent t' = ms_lent t - {obj}
           \<and> (if obj \<in> ms_lent t then ms_resets t' = ms_resets t @ [obj] else t' = t)"
proof -
  have pre: "length (ms_available t) = length addrs" "length (ms_inUse t) = length addrs"
    "mset (occupied (ms_available t)) + mset (occupied (ms_inUse t)) = mset addrs"
    using inv by (simp_all add: ms_pool_inv_def)
  have d: "distinct (occupied (ms_inUse t))"
    using tracking_facts(3) [OF h pre] .
  have mem: "obj \<in> ms_lent t \<longleftrightarrow> obj \<in> set (ms_inUse t)"
    using nz by (simp add: ms_lent_def set_occupied)
  show ?thesis
  proof (cases "obj \<in> set (ms_inUse t)")
    case False
    with ms_release_untracked [OF False, of rst] mem show ?thesis by simp
  next
    case True
    from ms_release_tracked [OF inv nz True, of rst] obtain t' where
      rel: "ms_release rst obj t = Inr t'"
      and iu: "mset (occupied (ms_inUse t')) = mset (occupied (ms_inUse t)) - {#obj#}"
      and log: "ms_resets t' = ms_resets t @ [obj]"
      by blast
    have "ms_lent t' = ms_lent t - {obj}"
      unfolding ms_lent_def using d iu by (rule set_after_take)
    with rel log True mem show ?thesis by simp
  qed
qed

text \<open>
  The multisets stay in ascending address order, so the first non-null element that
  \<open>ms_acquire\<close> finds is the available object with the lowest address.
\<close>

lemma sorted_erase_at:
  assumes "sorted xs"
  shows "sorted (erase_at i xs)"
  using assms
proof (induction xs arbitrary: i)
  case Nil
  then show ?case by (simp add: erase_at_def)
next
  case (Cons x xs)
  show ?case
  proof (cases i)
    case 0
    with Cons.prems show ?thesis by (simp add: erase_at_def)
  next
    case (Suc k)
    have "set (erase_at k xs) \<subseteq> set xs"
      unfolding erase_at_def using set_take_subset [of k xs] set_drop_subset [of "Suc k" xs]
      by auto
    moreover have "sorted (erase_at k xs)" using Cons.prems Cons.IH by simp
    moreover have "erase_at i (x # xs) = x # erase_at k xs"
      using Suc by (simp add: erase_at_def)
    ultimately show ?thesis using Cons.prems by auto
  qed
qed

lemma sorted_reinsert:
  assumes "sorted xs"
  shows "sorted (insort v (erase_at i xs))"
  using assms by (simp add: sorted_erase_at sorted_insort)

lemma hd_sorted_Min:
  assumes "sorted ys" and "ys \<noteq> []"
  shows "hd ys = Min (set ys)"
proof (cases ys)
  case Nil
  with assms(2) show ?thesis by simp
next
  case (Cons y rest)
  then have "\<forall>z \<in> set ys. y \<le> z" using assms(1) by auto
  then have "Min (set ys) = y"
    using Cons by (intro Min_eqI) auto
  with Cons show ?thesis by simp
qed

lemma hd_occupied_sorted:
  assumes "sorted xs" and "occupied xs \<noteq> []"
  shows "hd (occupied xs) = Min (set (occupied xs))"
proof -
  have "sorted (occupied xs)"
    unfolding occupied_def using assms(1) by (rule sorted_wrt_filter)
  then show ?thesis using assms(2) by (rule hd_sorted_Min)
qed

lemma ms_fill_sorted:
  assumes "sorted (ms_available t)" and "sorted (ms_inUse t)"
  shows "sorted (ms_available (ms_fill addrs t)) \<and> sorted (ms_inUse (ms_fill addrs t))"
  using assms by (induction addrs arbitrary: t) (simp_all add: sorted_insort)

lemma ms_reachable_sorted:
  assumes "ms_reachable rst dflt addrs t"
  shows "sorted (ms_available t) \<and> sorted (ms_inUse t)"
  using assms
proof (induction rule: ms_reachable.induct)
  case ms_constructed
  show ?case unfolding ms_Pool_def by (rule ms_fill_sorted) simp_all
next
  case (ms_acquired t r t')
  then show ?case
    by (auto simp: ms_acquire_def Let_def sorted_reinsert split: if_splits)
next
  case (ms_released t obj t')
  then show ?case
    by (auto simp: ms_release_def Let_def sorted_reinsert split: if_splits)
qed

text \<open>
  Claim C9 does not hold as stated. Capacity 2, the objects at addresses 5 and 9 in
  construction order; the script acquire, acquire, release(9), release(5), acquire.
  The array-based pool has \<^verbatim>\<open>_available = [9, 5]\<close> before the last call and returns
  9, the second object; the multiset-based pool iterates \<^verbatim>\<open>_available\<close> in address
  order and returns 5, the first object.
\<close>

theorem implementations_differ_counterexample:
  "fst (run id [Acquire, Acquire, Release 9, Release 5, Acquire] (Pool (1::nat) [5, 9]))
     = [Acq 5, Acq 9, Rel 9, Rel 5, Acq 9]
   \<and> fst (ms_run id [Acquire, Acquire, Release 9, Release 5, Acquire] (ms_Pool (1::nat) [5, 9]))
     = [Acq 5, Acq 9, Rel 9, Rel 5, Acq 5]"
  by (simp add: acquire_def release_def Pool_def ms_acquire_def ms_release_def ms_Pool_def
      erase_at_def std_find_def Let_def)

text \<open>
  Claim C9, amended. The two implementations agree up to the choice of the object an
  acquire hands out. In reachable states of the two pools (built over the same objects)
  that track the same set of objects as lent:
  \<^item> \<open>acquire\<close> returns normally in both, and signals exhaustion in both or in neither;
    when it succeeds, the array-based pool returns the object in the first non-empty
    slot of \<^verbatim>\<open>_available\<close> and the multiset-based pool the available object with the
    lowest address, each a constructed object that was not lent, now tracked as lent;
  \<^item> \<open>release\<close> of a non-null reference returns normally in both; a lent reference is
    accepted by both (one \<^verbatim>\<open>reset()\<close> each), any other is ignored by both, and the two
    pools again track the same set;
  \<^item> \<open>release(nullptr)\<close> is ignored by both when every object is lent, and is the same
    fault in both otherwise.
\<close>

theorem implementations_agree_up_to_choice:
  assumes "heap_addrs addrs"
    and "reachable rst dflt addrs s" and "ms_reachable rst dflt addrs t"
    and "lent s = ms_lent t"
  shows "(\<exists>r s' r' t'. acquire s = Inr (r, s') \<and> ms_acquire t = Inr (r', t')
            \<and> (r = nullptr \<longleftrightarrow> r' = nullptr)
            \<and> (r = nullptr \<longrightarrow> s' = s \<and> t' = t)
            \<and> (r \<noteq> nullptr \<longrightarrow>
                  r = hd (occupied (available s)) \<and> r' = Min (set addrs - lent s)
                  \<and> r \<in> set addrs - lent s \<and> r' \<in> set addrs - lent s
                  \<and> lent s' = insert r (lent s) \<and> ms_lent t' = insert r' (lent s)))
       \<and> (\<forall>obj. obj \<noteq> nullptr \<longrightarrow>
            (\<exists>s' t'. release rst obj s = Inr s' \<and> ms_release rst obj t = Inr t'
               \<and> lent s' = ms_lent t'
               \<and> (if obj \<in> lent s
                   then resets s' = resets s @ [obj] \<and> ms_resets t' = ms_resets t @ [obj]
                   else s' = s \<and> t' = t)))
       \<and> (if lent s = set addrs
           then release rst nullptr s = Inr s \<and> ms_release rst nullptr t = Inr t
           else release rst nullptr s = Inl NullDeref \<and> ms_release rst nullptr t = Inl NullDeref)"
proof -
  have nz: "nullptr \<notin> set addrs" using assms(1) by (simp add: heap_addrs_def)
  have inv: "pool_inv addrs s" using nz assms(2) by (rule reachable_inv)
  have minv: "ms_pool_inv addrs t" using nz assms(3) by (rule ms_reachable_inv)
  have pre: "length (available s) = length addrs" "length (inUse s) = length addrs"
    "mset (occupied (available s)) + mset (occupied (inUse s)) = mset addrs"
    using inv by (simp_all add: pool_inv_def)
  have mpre: "length (ms_available t) = length addrs" "length (ms_inUse t) = length addrs"
    "mset (occupied (ms_available t)) + mset (occupied (ms_inUse t)) = mset addrs"
    using minv by (simp_all add: ms_pool_inv_def)
  note f = tracking_facts [OF assms(1) pre]
  note g = tracking_facts [OF assms(1) mpre]

  have acq: "\<exists>r s' r' t'. acquire s = Inr (r, s') \<and> ms_acquire t = Inr (r', t')
            \<and> (r = nullptr \<longleftrightarrow> r' = nullptr)
            \<and> (r = nullptr \<longrightarrow> s' = s \<and> t' = t)
            \<and> (r \<noteq> nullptr \<longrightarrow>
                  r = hd (occupied (available s)) \<and> r' = Min (set addrs - lent s)
                  \<and> r \<in> set addrs - lent s \<and> r' \<in> set addrs - lent s
                  \<and> lent s' = insert r (lent s) \<and> ms_lent t' = insert r' (lent s))"
  proof -
    from acquire_lent [OF assms(1) inv] obtain r s' where
      a1: "acquire s = Inr (r, s')" and a2: "r = nullptr \<longleftrightarrow> lent s = set addrs"
      and a3: "r = nullptr \<longrightarrow> s' = s"
      and a4: "r \<noteq> nullptr \<longrightarrow> r \<in> set addrs - lent s \<and> lent s' = insert r (lent s)"
      by blast
    from ms_acquire_lent [OF assms(1) minv] obtain r' t' where
      b1: "ms_acquire t = Inr (r', t')" and b2: "r' = nullptr \<longleftrightarrow> ms_lent t = set addrs"
      and b3: "r' = nullptr \<longrightarrow> t' = t"
      and b4: "r' \<noteq> nullptr \<longrightarrow> r' \<in> set addrs - ms_lent t \<and> ms_lent t' = insert r' (ms_lent t)"
      by blast
    have same: "r = nullptr \<longleftrightarrow> r' = nullptr" using a2 b2 assms(4) by simp
    have hd_r: "r = hd (occupied (available s))" if "r \<noteq> nullptr"
    proof -
      have "occupied (available s) \<noteq> []" using that a2 f(4) by (simp add: lent_def)
      from acquire_grant [OF inv this] a1 show ?thesis by auto
    qed
    have min_r': "r' = Min (set addrs - lent s)" if "r' \<noteq> nullptr"
    proof -
      have some: "occupied (ms_available t) \<noteq> []" using that b2 g(4) by (simp add: ms_lent_def)
      from ms_acquire_grant [OF minv some] b1 have "r' = hd (occupied (ms_available t))" by auto
      also have "\<dots> = Min (set (occupied (ms_available t)))"
        using ms_reachable_sorted [OF assms(3)] some by (simp add: hd_occupied_sorted)
      also have "set (occupied (ms_available t)) = set addrs - lent s"
        using g(1) assms(4) by (simp add: ms_lent_def)
      finally show ?thesis .
    qed
    have b4': "r' \<noteq> nullptr \<longrightarrow> r' \<in> set addrs - lent s \<and> ms_lent t' = insert r' (lent s)"
      using b4 assms(4) by simp
    have succ: "r \<noteq> nullptr \<longrightarrow>
                  r = hd (occupied (available s)) \<and> r' = Min (set addrs - lent s)
                  \<and> r \<in> set addrs - lent s \<and> r' \<in> set addrs - lent s
                  \<and> lent s' = insert r (lent s) \<and> ms_lent t' = insert r' (lent s)"
    proof
      assume r: "r \<noteq> nullptr"
      then have r': "r' \<noteq> nullptr" using same by simp
      from r r' a4 b4' hd_r min_r' show "r = hd (occupied (available s)) \<and> r' = Min (set addrs - lent s)
                  \<and> r \<in> set addrs - lent s \<and> r' \<in> set addrs - lent s
                  \<and> lent s' = insert r (lent s) \<and> ms_lent t' = insert r' (lent s)"
        by blast
    qed
    have fail: "r = nullptr \<longrightarrow> s' = s \<and> t' = t"
      using a3 b3 same by blast
    show ?thesis
      by (rule exI [of _ r], rule exI [of _ s'], rule exI [of _ r'], rule exI [of _ t'])
        (intro conjI a1 b1 same fail succ)
  qed

  have rel: "\<exists>s' t'. release rst obj s = Inr s' \<and> ms_release rst obj t = Inr t'
               \<and> lent s' = ms_lent t'
               \<and> (if obj \<in> lent s
                   then resets s' = resets s @ [obj] \<and> ms_resets t' = ms_resets t @ [obj]
                   else s' = s \<and> t' = t)"
    if "obj \<noteq> nullptr" for obj
  proof -
    from release_lent [OF assms(1) inv that, of rst] obtain s' where
      c: "release rst obj s = Inr s'" "lent s' = lent s - {obj}"
         "if obj \<in> lent s then resets s' = resets s @ [obj] else s' = s"
      by blast
    from ms_release_lent [OF assms(1) minv that, of rst] obtain t' where
      d: "ms_release rst obj t = Inr t'" "ms_lent t' = ms_lent t - {obj}"
         "if obj \<in> ms_lent t then ms_resets t' = ms_resets t @ [obj] else t' = t"
      by blast
    have "lent s' = ms_lent t'" using c(2) d(2) assms(4) by simp
    moreover have "if obj \<in> lent s
                   then resets s' = resets s @ [obj] \<and> ms_resets t' = ms_resets t @ [obj]
                   else s' = s \<and> t' = t"
      using c(3) d(3) assms(4) by (cases "obj \<in> lent s") simp_all
    ultimately show ?thesis
      using c(1) d(1) by (intro exI [of _ s'] exI [of _ t'] conjI)
  qed

  have null: "if lent s = set addrs
           then release rst nullptr s = Inr s \<and> ms_release rst nullptr t = Inr t
           else release rst nullptr s = Inl NullDeref \<and> ms_release rst nullptr t = Inl NullDeref"
  proof (cases "lent s = set addrs")
    case True
    then have "nullptr \<notin> set (inUse s)" "nullptr \<notin> set (ms_inUse t)"
      using f(5) g(5) assms(4) by (simp_all add: lent_def ms_lent_def)
    with True show ?thesis by (simp add: release_untracked ms_release_untracked)
  next
    case False
    then have "nullptr \<in> set (inUse s)" "nullptr \<in> set (ms_inUse t)"
      using f(5) g(5) assms(4) by (simp_all add: lent_def ms_lent_def)
    with False show ?thesis by (simp add: release_null ms_release_null)
  qed

  show ?thesis
    by (intro conjI allI impI acq null rel) assumption
qed

theorem implementations_agree_up_to_choice_witness:
  "\<exists>s' t'. acquire (Pool (1::nat) [9, 5]) = Inr (9, s')
         \<and> ms_acquire (ms_Pool (1::nat) [9, 5]) = Inr (5, t')
         \<and> lent s' = {9} \<and> ms_lent t' = {5}"
proof -
  let ?P = "Pool (1::nat) [9, 5]"
  let ?M = "ms_Pool (1::nat) [9, 5]"
  have h: "heap_addrs [9, 5]" by (simp add: heap_addrs_def)
  have r: "reachable id 1 [9, 5] ?P" by (rule reachable.constructed)
  have m: "ms_reachable id 1 [9, 5] ?M" by (rule ms_reachable.ms_constructed)
  have l: "lent ?P = {}"
    by (simp add: lent_def Pool_def occupied_def)
  have e: "lent ?P = ms_lent ?M"
    by (simp add: lent_def ms_lent_def Pool_def ms_Pool_def occupied_def)
  have first: "hd (occupied (available ?P)) = 9"
    by (simp add: Pool_def occupied_def)
  have lowest: "Min (set [9, 5] - lent ?P) = (5::nat)"
    unfolding l by simp
  from conjunct1 [OF implementations_agree_up_to_choice [OF h r m e]]
  obtain a s' b t' where
    A: "acquire ?P = Inr (a, s')" and B: "ms_acquire ?M = Inr (b, t')"
    and E: "a \<noteq> nullptr \<longrightarrow>
       a = hd (occupied (available ?P)) \<and> b = Min (set [9, 5] - lent ?P)
       \<and> a \<in> set [9, 5] - lent ?P \<and> b \<in> set [9, 5] - lent ?P
       \<and> lent s' = insert a (lent ?P) \<and> ms_lent t' = insert b (lent ?P)"
    by (elim exE conjE)
  have "fst (projr (acquire ?P)) = 9"
    by (simp add: acquire_def Pool_def std_find_def)
  with A have a: "a = 9" by simp
  with E have "b = Min (set [9, 5] - lent ?P)" "lent s' = insert a (lent ?P)"
    "ms_lent t' = insert b (lent ?P)"
    by simp_all
  then have "b = 5" "lent s' = {9}" "ms_lent t' = {5}"
    unfolding lowest l a by simp_all
  with A B a show ?thesis by simp
qed

end
